theory Spec2Isabelle
  imports Main "HOL-Library.Multiset" "HOL-Library.Sublist"
begin

unbundle bit_operations_syntax

section \<open>smell-baron: a process supervisor (src/main.c)\<close>

text \<open>
  The supervisor is one C file.  It parses its command line into commands, launches the
  configuring ones and drains them, launches the others, reaps children until every
  watched command has exited, and then signals and drains everything that is left.

  The embedding follows the C text function by function.  What the operating system
  answers (the return values of \<^verbatim>\<open>fork\<close>, \<^verbatim>\<open>waitpid\<close>,
  \<^verbatim>\<open>sigaction\<close>, \<^verbatim>\<open>getpid\<close>, and the signals it delivers)
  is input: the answers to \<^verbatim>\<open>waitpid\<close> are a list of events consumed one per
  call, the others are fields of the process state.  Every system call the supervisor
  makes is appended to a log, so that claims about the order of launches, waits and
  signals are statements about that log.
\<close>

subsection \<open>Data (lines 13-48)\<close>

type_synonym pid_t = int

definition WAIT_FOR_PROC_DEATH_TIMEOUT :: nat where
  "WAIT_FOR_PROC_DEATH_TIMEOUT = 10"

definition SEP :: string where
  "SEP = ''---''"

definition INT_MAX :: int where
  "INT_MAX = 2147483647"

text \<open>
  \<^verbatim>\<open>Cmd.args\<close> points into \<^verbatim>\<open>argv\<close>: it is the index of the command's first
  word, or \<open>None\<close> for the null pointer \<^verbatim>\<open>calloc\<close> leaves.
\<close>

record Cmd =
  args :: "nat option"
  watch :: bool
  configuring :: bool
  pid :: pid_t

record Opts =
  signal_everything :: bool

subsection \<open>The operating system as seen by the supervisor\<close>

datatype signal = SIGINT | SIGTERM | SIGALRM

datatype handler = SIG_DFL | SIG_IGN | Handler_on_signal | Handler_on_alarm

datatype errno = EINTR | ECHILD | EOTHER

text \<open>The system calls the supervisor makes, with what they returned.\<close>

datatype action =
    Sigaction signal handler int
  | Fork "nat option" pid_t
  | Waitpid pid_t int errno
  | Alarm nat
  | Kill int signal

text \<open>
  One answer of \<^verbatim>\<open>waitpid(-1, &status, 0)\<close>: the value returned (\<open>-1\<close> on error),
  the content of \<^verbatim>\<open>status\<close> after the call (left as it was, that is indeterminate,
  when the call fails), \<^verbatim>\<open>errno\<close>, the signals delivered to the supervisor since
  its previous observation and before it enters the call, and the signals delivered
  from there until the call has returned.
\<close>

record wait_ev =
  sigs_before :: "signal list"
  w_pid :: pid_t
  w_status :: int
  w_errno :: errno
  sigs_during :: "signal list"

text \<open>
  How the process ends: \<^verbatim>\<open>main\<close> returns (\<open>None\<close> is the value of a variable that
  was never assigned), \<^verbatim>\<open>exit\<close> is called, a signal with the default disposition
  kills it, it waits for an event that never comes, it is the child side of a
  \<^verbatim>\<open>fork\<close>, or it dereferences a null pointer.
\<close>

datatype proc_end =
    Return "int option"
  | Exit int
  | Killed signal
  | Blocked
  | Child "nat option"
  | Segfault

text \<open>
  The process state: the two globals of the C file (\<^verbatim>\<open>running\<close>, line 23, and
  \<^verbatim>\<open>alarm_exit_code\<close>, line 99), the signal dispositions, the log, and the
  answers of the system: the process id, the value of the k-th \<^verbatim>\<open>fork\<close>, the value
  of each \<^verbatim>\<open>sigaction\<close> call, the signals delivered between the installation of
  the handlers and the configure phase, and those delivered between \<^verbatim>\<open>alarm\<close>
  (line 301) and the store to \<^verbatim>\<open>alarm_exit_code\<close> (line 102).
\<close>

record world =
  running :: bool
  alarm_exit_code :: int
  handlers :: "signal \<Rightarrow> handler"
  log :: "action list"
  forks :: nat
  getpid_ret :: int
  fork_ret :: "nat \<Rightarrow> pid_t"
  sigaction_ret :: "signal \<Rightarrow> handler \<Rightarrow> int"
  sigs_at_start :: "signal list"
  sigs_after_arm :: "signal list"

datatype 'a res = Ok 'a world | Stop proc_end world

definition emit :: "action \<Rightarrow> world \<Rightarrow> world" where
  "emit a w = w\<lparr>log := log w @ [a]\<rparr>"

subsection \<open>Signal handlers (lines 119-127)\<close>

definition on_signal :: "world \<Rightarrow> world" where
  "on_signal w = w\<lparr>running := False\<rparr>"

definition on_alarm :: "world \<Rightarrow> unit res" where
  "on_alarm w = Stop (Exit (alarm_exit_code w)) w"

definition deliver :: "signal \<Rightarrow> world \<Rightarrow> unit res" where
  "deliver s w =
     (case handlers w s of
        SIG_DFL \<Rightarrow> Stop (Killed s) w
      | SIG_IGN \<Rightarrow> Ok () w
      | Handler_on_signal \<Rightarrow> Ok () (on_signal w)
      | Handler_on_alarm \<Rightarrow> on_alarm w)"

fun deliver_all :: "signal list \<Rightarrow> world \<Rightarrow> unit res" where
  "deliver_all [] w = Ok () w"
| "deliver_all (s # ss) w =
     (case deliver s w of
        Ok u w' \<Rightarrow> deliver_all ss w'
      | Stop r w' \<Rightarrow> Stop r w')"

text \<open>The call \<^verbatim>\<open>waitpid(-1, &status, 0)\<close> answered by the event \<open>e\<close>.\<close>

definition waitpid :: "wait_ev \<Rightarrow> world \<Rightarrow> (pid_t \<times> int \<times> errno) res" where
  "waitpid e w =
     (case deliver_all (sigs_during e) (emit (Waitpid (w_pid e) (w_status e) (w_errno e)) w) of
        Ok u w' \<Rightarrow> Ok (w_pid e, w_status e, w_errno e) w'
      | Stop r w' \<Rightarrow> Stop r w')"

text \<open>The macros of \<^verbatim>\<open><sys/wait.h>\<close>, with the encoding Linux gives the status.\<close>

definition WIFEXITED :: "int \<Rightarrow> bool" where
  "WIFEXITED status \<longleftrightarrow> status AND 0x7f = 0"

definition WEXITSTATUS :: "int \<Rightarrow> int" where
  "WEXITSTATUS status = drop_bit 8 (status AND 0xff00)"

subsection \<open>The main supervision loop (lines 50-97)\<close>

record loop_state =
  cmds_left :: int
  error_code :: int
  error_code_idx :: int

text \<open>
  Lines 71-93, the scan of the watched commands for the reaped pid, from index \<open>i\<close>.
  \<open>Inl c\<close> is \<^verbatim>\<open>return error_code\<close> (line 86); \<open>Inr st\<close> leaves the scan for the
  next round of the outer loop, by \<^verbatim>\<open>break\<close> or at the end of the array.
  The array \<^verbatim>\<open>watch_cmds\<close> and its length \<^verbatim>\<open>n_watch_cmds\<close> are one list, of the
  commands the pointers point to.
\<close>

function scan_watch_cmds ::
  "Cmd list \<Rightarrow> pid_t \<Rightarrow> int \<Rightarrow> nat \<Rightarrow> loop_state \<Rightarrow> int + loop_state" where
  "scan_watch_cmds watch_cmds waited_pid status i st =
     (if i < length watch_cmds then
        if pid (watch_cmds ! i) = waited_pid then
          let st1 =
                (if WIFEXITED status then
                   let exit_status = WEXITSTATUS status in
                   if exit_status \<noteq> 0 \<and> int i < error_code_idx st
                   then st\<lparr>error_code := exit_status, error_code_idx := int i\<rparr>
                   else st
                 else st);
              st2 = st1\<lparr>cmds_left := cmds_left st1 - 1\<rparr>
          in if cmds_left st2 = 0 then Inl (error_code st2) else Inr st2
        else scan_watch_cmds watch_cmds waited_pid status (Suc i) st
      else Inr st)"
  by pat_completeness auto
termination
  by (relation "measure (\<lambda>(watch_cmds, waited_pid, status, i, st). length watch_cmds - i)") auto

declare scan_watch_cmds.simps [simp del]

text \<open>
  The outer loop, lines 55-94.  The remaining events are returned with the code: a
  return at line 58 leaves the call that was not made to whoever waits next.
\<close>

fun wait_loop ::
  "Cmd list \<Rightarrow> loop_state \<Rightarrow> wait_ev list \<Rightarrow> world \<Rightarrow> (int \<times> wait_ev list) res" where
  "wait_loop watch_cmds st [] w =
     (if \<not> running w then Ok (error_code st, []) w else Stop Blocked w)"
| "wait_loop watch_cmds st (e # es) w =
     (case deliver_all (sigs_before e) w of
        Stop r w' \<Rightarrow> Stop r w'
      | Ok u w1 \<Rightarrow>
          if \<not> running w1 then Ok (error_code st, e\<lparr>sigs_before := []\<rparr> # es) w1
          else
            (case waitpid e w1 of
               Stop r w' \<Rightarrow> Stop r w'
             | Ok (waited_pid, status, err) w2 \<Rightarrow>
                 if \<not> running w2 then Ok (error_code st, es) w2
                 else
                   (case scan_watch_cmds watch_cmds waited_pid status 0 st of
                      Inl c \<Rightarrow> Ok (c, es) w2
                    | Inr st' \<Rightarrow> wait_loop watch_cmds st' es w2)))"

definition wait_for_requested_commands_to_exit ::
  "Cmd list \<Rightarrow> wait_ev list \<Rightarrow> world \<Rightarrow> (int \<times> wait_ev list) res" where
  "wait_for_requested_commands_to_exit watch_cmds evs w =
     wait_loop watch_cmds
       \<lparr>cmds_left = int (length watch_cmds), error_code = 0, error_code_idx = INT_MAX\<rparr> evs w"

subsection \<open>Waiting for every child (lines 99-107)\<close>

text \<open>
  The loop \<^verbatim>\<open>for (;;) if (waitpid(-1, &status, 0) == -1 && errno == ECHILD) break;\<close>
  stands twice in the file, at lines 103-106 and 178-181.  With no event left the
  process stays in the call.
\<close>

fun reap_all :: "wait_ev list \<Rightarrow> world \<Rightarrow> (unit \<times> wait_ev list) res" where
  "reap_all [] w = Stop Blocked w"
| "reap_all (e # es) w =
     (case deliver_all (sigs_before e) w of
        Stop r w' \<Rightarrow> Stop r w'
      | Ok u w1 \<Rightarrow>
          (case waitpid e w1 of
             Stop r w' \<Rightarrow> Stop r w'
           | Ok (waited_pid, status, err) w2 \<Rightarrow>
               if waited_pid = - 1 \<and> err = ECHILD then Ok ((), es) w2
               else reap_all es w2))"

definition wait_for_all_processes_to_exit ::
  "int \<Rightarrow> wait_ev list \<Rightarrow> world \<Rightarrow> (unit \<times> wait_ev list) res" where
  "wait_for_all_processes_to_exit code evs w = reap_all evs (w\<lparr>alarm_exit_code := code\<rparr>)"

subsection \<open>Launching (lines 109-117, 165-191)\<close>

text \<open>
  \<^verbatim>\<open>run_proc\<close>: in the supervisor \<^verbatim>\<open>fork\<close> returns the child's pid, or \<open>-1\<close>;
  where it returns \<open>0\<close> the process is the child, which becomes the command or calls
  \<^verbatim>\<open>exit(1)\<close> and never comes back.
\<close>

definition run_proc :: "nat option \<Rightarrow> world \<Rightarrow> pid_t res" where
  "run_proc argv w =
     (let p = fork_ret w (forks w);
          w' = emit (Fork argv p) (w\<lparr>forks := forks w + 1\<rparr>)
      in if p \<noteq> 0 then Ok p w' else Stop (Child argv) w')"

text \<open>Lines 167-173, over the indices \<open>is\<close>; \<open>n\<close> is the counter \<^verbatim>\<open>run_configure_cmds\<close>.\<close>

fun launch_configuring :: "nat list \<Rightarrow> Cmd list \<Rightarrow> int \<Rightarrow> world \<Rightarrow> (Cmd list \<times> int) res" where
  "launch_configuring [] cmds n w = Ok (cmds, n) w"
| "launch_configuring (i # is) cmds n w =
     (if \<not> configuring (cmds ! i) then launch_configuring is cmds n w
      else
        (case run_proc (args (cmds ! i)) w of
           Stop r w' \<Rightarrow> Stop r w'
         | Ok p w' \<Rightarrow> launch_configuring is (cmds[i := (cmds ! i)\<lparr>pid := p\<rparr>]) (n + 1) w'))"

definition run_configure_cmds ::
  "Cmd list \<Rightarrow> wait_ev list \<Rightarrow> world \<Rightarrow> (Cmd list \<times> wait_ev list) res" where
  "run_configure_cmds cmds evs w =
     (case launch_configuring [0..<length cmds] cmds 0 w of
        Stop r w' \<Rightarrow> Stop r w'
      | Ok (cmds', n) w' \<Rightarrow>
          if n \<noteq> 0 then
            (case reap_all evs w' of
               Stop r w'' \<Rightarrow> Stop r w''
             | Ok (u, evs') w'' \<Rightarrow> Ok (cmds', evs') w'')
          else Ok (cmds', evs) w')"

fun launch_main :: "nat list \<Rightarrow> Cmd list \<Rightarrow> world \<Rightarrow> (Cmd list) res" where
  "launch_main [] cmds w = Ok cmds w"
| "launch_main (i # is) cmds w =
     (if \<not> configuring (cmds ! i) then
        (case run_proc (args (cmds ! i)) w of
           Stop r w' \<Rightarrow> Stop r w'
         | Ok p w' \<Rightarrow> launch_main is (cmds[i := (cmds ! i)\<lparr>pid := p\<rparr>]) w')
      else launch_main is cmds w)"

definition run_cmds :: "Cmd list \<Rightarrow> world \<Rightarrow> (Cmd list) res" where
  "run_cmds cmds w = launch_main [0..<length cmds] cmds w"

subsection \<open>Installing and removing the handlers (lines 129-160)\<close>

definition perror_die :: "world \<Rightarrow> 'a res" where
  "perror_die w = Stop (Exit 1) w"

definition sigaction :: "signal \<Rightarrow> handler \<Rightarrow> world \<Rightarrow> int \<times> world" where
  "sigaction s h w =
     (let r = sigaction_ret w s h; w' = emit (Sigaction s h r) w
      in (r, if r = 0 then w'\<lparr>handlers := (handlers w')(s := h)\<rparr> else w'))"

definition install_term_and_int_handlers :: "world \<Rightarrow> unit res" where
  "install_term_and_int_handlers w =
     (case sigaction SIGINT Handler_on_signal w of (r1, w1) \<Rightarrow>
        if r1 \<noteq> 0 then perror_die w1
        else (case sigaction SIGTERM Handler_on_signal w1 of (r2, w2) \<Rightarrow>
          if r2 \<noteq> 0 then perror_die w2
          else (case sigaction SIGALRM Handler_on_alarm w2 of (r3, w3) \<Rightarrow>
            if r3 \<noteq> 0 then perror_die w3 else Ok () w3)))"

definition remove_term_and_int_handlers :: "world \<Rightarrow> world" where
  "remove_term_and_int_handlers w =
     (case sigaction SIGINT SIG_IGN w of (r1, w1) \<Rightarrow>
        if r1 \<noteq> 0 then w1
        else (case sigaction SIGTERM SIG_IGN w1 of (r2, w2) \<Rightarrow> w2))"

text \<open>
  \<^verbatim>\<open>kill(target, sig)\<close>.  The target \<open>0\<close> is the caller's process group, the caller
  included, so the signal comes back to the supervisor; the target \<open>-1\<close> is every
  process but the caller.
\<close>

definition kill :: "int \<Rightarrow> signal \<Rightarrow> world \<Rightarrow> unit res" where
  "kill target s w =
     (let w' = emit (Kill target s) w
      in if target = 0 then deliver s w' else Ok () w')"

subsection \<open>Parsing the command line (lines 193-255)\<close>

text \<open>
  \<^verbatim>\<open>argv\<close> is a list of words; the parser overwrites separators with null pointers
  (line 243), so the memory it works on is a list of optional words.

  \<^verbatim>\<open>getopt\<close> belongs to the C library.  With the option string \<^verbatim>\<open>"+acf"\<close> no option
  takes an argument and the scan stops at the first word that is not an option (a
  null pointer, a word that does not start with \<^verbatim>\<open>-\<close>, the word \<^verbatim>\<open>-\<close>), or after
  the word \<^verbatim>\<open>--\<close>.  \<open>getopt_scan\<close> gives the characters the successive calls
  return before \<open>-1\<close> (\<^verbatim>\<open>?\<close> for a character outside the option string) and the number
  of words consumed, for the words \<^verbatim>\<open>argv[1]\<close> to \<^verbatim>\<open>argv[argc - 1]\<close>.
\<close>

definition nonoption :: "string \<Rightarrow> bool" where
  "nonoption s \<longleftrightarrow> (case s of [] \<Rightarrow> True | c # cs \<Rightarrow> c \<noteq> CHR ''-'' \<or> cs = [])"

fun getopt_scan :: "string \<Rightarrow> string option list \<Rightarrow> string \<times> nat" where
  "getopt_scan optstring [] = ([], 0)"
| "getopt_scan optstring (None # rest) = ([], 0)"
| "getopt_scan optstring (Some s # rest) =
     (if s = ''--'' then ([], 1)
      else if nonoption s then ([], 0)
      else
        (case getopt_scan optstring rest of (cs, k) \<Rightarrow>
           (map (\<lambda>c. if c \<in> set optstring then c else CHR ''?'') (tl s) @ cs, Suc k)))"

text \<open>
  All the calls \<^verbatim>\<open>getopt(argc, argv, "+acf")\<close> of one loop (line 196), from
  \<^verbatim>\<open>optind = 1\<close>: the characters returned and \<^verbatim>\<open>optind\<close> at the end.
\<close>

definition getopt :: "nat \<Rightarrow> string option list \<Rightarrow> string \<times> nat" where
  "getopt argc argv =
     (case getopt_scan ''acf'' (take (argc - 1) (drop 1 argv)) of (cs, k) \<Rightarrow> (cs, 1 + k))"

text \<open>The \<^verbatim>\<open>switch\<close> of lines 197-213, for each character \<^verbatim>\<open>getopt\<close> returns.\<close>

fun handle_opts :: "string \<Rightarrow> Opts \<Rightarrow> Cmd \<Rightarrow> world \<Rightarrow> (Opts \<times> Cmd) res" where
  "handle_opts [] opts cmd w = Ok (opts, cmd) w"
| "handle_opts (c # cs) opts cmd w =
     (if c = CHR ''a'' then
        (if getpid_ret w \<noteq> 1 then Stop (Exit 1) w
         else handle_opts cs (opts\<lparr>signal_everything := True\<rparr>) cmd w)
      else if c = CHR ''c'' then handle_opts cs opts (cmd\<lparr>configuring := True\<rparr>) w
      else if c = CHR ''f'' then handle_opts cs opts (cmd\<lparr>watch := True\<rparr>) w
      else handle_opts cs opts cmd w)"

text \<open>
  \<^verbatim>\<open>parse_cmd_args(opts, cmd, arg_it, args_end)\<close>, with pointers as indices into the
  memory \<open>mem\<close>: \<^verbatim>\<open>getopt\<close> is given \<^verbatim>\<open>args_end - arg_it\<close> as its \<^verbatim>\<open>argc\<close> and
  \<^verbatim>\<open>arg_it - 1\<close> as its \<^verbatim>\<open>argv\<close>.
\<close>

definition parse_cmd_args ::
  "Opts \<Rightarrow> Cmd \<Rightarrow> nat \<Rightarrow> nat \<Rightarrow> string option list \<Rightarrow> world \<Rightarrow> (Opts \<times> Cmd) res" where
  "parse_cmd_args opts cmd arg_it args_end mem w =
     (case getopt (args_end - arg_it) (drop (arg_it - 1) mem) of (cs, optind) \<Rightarrow>
        (case handle_opts cs opts cmd w of
           Stop r w' \<Rightarrow> Stop r w'
         | Ok (opts', cmd') w' \<Rightarrow>
             if configuring cmd' \<and> watch cmd' then Stop (Exit 1) w'
             else Ok (opts', cmd'\<lparr>args := Some (arg_it + optind - 1)\<rparr>) w'))"

lemma getopt_optind: "getopt argc argv = (cs, optind) \<Longrightarrow> 1 \<le> optind"
  by (auto simp: getopt_def split: prod.splits)

lemma handle_opts_args:
  "handle_opts cs opts cmd w = Ok (opts', cmd') w' \<Longrightarrow> args cmd' = args cmd \<and> w' = w"
  by (induction cs opts cmd w rule: handle_opts.induct) (auto split: if_splits)

lemma parse_cmd_args_args:
  "parse_cmd_args opts cmd arg_it args_end mem w = Ok (opts', cmd') w' \<Longrightarrow>
     \<exists>a. args cmd' = Some a \<and> arg_it \<le> a"
  by (auto simp: parse_cmd_args_def split: prod.splits res.splits if_splits dest: getopt_optind)

text \<open>
  The loop of lines 241-254, from \<^verbatim>\<open>arg_it\<close>; \<^verbatim>\<open>args_end\<close> is the length of the
  memory.  \<^verbatim>\<open>strcmp\<close> on a null pointer and a store past the end of \<^verbatim>\<open>cmds\<close> are
  undefined in C: a segmentation fault here.
\<close>

function parse_loop ::
  "nat \<Rightarrow> nat \<Rightarrow> Cmd list \<Rightarrow> Opts \<Rightarrow> string option list \<Rightarrow> world \<Rightarrow>
     (Cmd list \<times> Opts \<times> string option list) res" where
  "parse_loop arg_it cmd_idx cmds opts mem w =
     (if arg_it < length mem then
        (case mem ! arg_it of
           None \<Rightarrow> Stop Segfault w
         | Some s \<Rightarrow>
             if s = SEP then
               let mem' = mem[arg_it := None] in
               if arg_it + 1 = length mem then Stop (Exit 1) w
               else if \<not> cmd_idx + 1 < length cmds then Stop Segfault w
               else
                 (case parse_cmd_args opts (cmds ! (cmd_idx + 1)) (arg_it + 1) (length mem) mem' w of
                    Stop r w' \<Rightarrow> Stop r w'
                  | Ok (opts', cmd') w' \<Rightarrow>
                      (case args cmd' of
                         None \<Rightarrow> Stop Segfault w'
                       | Some a \<Rightarrow>
                           parse_loop a (cmd_idx + 1) (cmds[cmd_idx + 1 := cmd']) opts' mem' w'))
             else parse_loop (arg_it + 1) cmd_idx cmds opts mem w)
      else Ok (cmds, opts, mem) w)"
  by pat_completeness auto
termination
proof (relation "measure (\<lambda>(arg_it, cmd_idx, cmds, opts, mem, w). length mem - arg_it)")
  show "wf (measure (\<lambda>(arg_it, cmd_idx, cmds, opts, mem, w). length mem - arg_it))"
    by simp
next
  fix arg_it cmd_idx :: nat and cmds :: "Cmd list" and opts :: Opts
    and mem :: "string option list" and w :: world and s mem' r opts' cmd' w' a and x :: "Opts \<times> Cmd"
  assume lt: "arg_it < length mem" and mem': "mem' = mem[arg_it := None]"
    and p: "parse_cmd_args opts (cmds ! (cmd_idx + 1)) (arg_it + 1) (length mem) mem' w = Ok x w'"
    and x: "(opts', cmd') = x" and a: "args cmd' = Some a"
  from p x have "parse_cmd_args opts (cmds ! (cmd_idx + 1)) (arg_it + 1) (length mem) mem' w
      = Ok (opts', cmd') w'" by simp
  from parse_cmd_args_args [OF this] a have "arg_it + 1 \<le> a" by auto
  with lt mem'
  show "((a, cmd_idx + 1, cmds[cmd_idx + 1 := cmd'], opts', mem', w'), arg_it, cmd_idx, cmds, opts, mem, w)
      \<in> measure (\<lambda>(arg_it, cmd_idx, cmds, opts, mem, w). length mem - arg_it)"
    by simp
next
  fix arg_it cmd_idx :: nat and cmds :: "Cmd list" and opts :: Opts
    and mem :: "string option list" and w :: world
  assume "arg_it < length mem"
  then show "((arg_it + 1, cmd_idx, cmds, opts, mem, w), arg_it, cmd_idx, cmds, opts, mem, w)
      \<in> measure (\<lambda>(arg_it, cmd_idx, cmds, opts, mem, w). length mem - arg_it)"
    by simp
qed

declare parse_loop.simps [simp del]

text \<open>\<^verbatim>\<open>parse_argv\<close>, lines 224-255; \<^verbatim>\<open>calloc\<close> gives commands that are all zero.\<close>

definition zero_cmd :: Cmd where
  "zero_cmd = \<lparr>args = None, watch = False, configuring = False, pid = 0\<rparr>"

definition parse_argv ::
  "string list \<Rightarrow> world \<Rightarrow> (Cmd list \<times> Opts \<times> string option list) res" where
  "parse_argv argv w =
     (let mem = map Some argv;
          n_cmds = fold (\<lambda>a n. if a = SEP then n + 1 else n) (drop 1 argv) (1::nat);
          cmds = replicate n_cmds zero_cmd;
          opts = \<lparr>signal_everything = False\<rparr>
      in case parse_cmd_args opts (cmds ! 0) 1 (length mem) mem w of
           Stop r w' \<Rightarrow> Stop r w'
         | Ok (opts', cmd') w' \<Rightarrow>
             (case args cmd' of
                None \<Rightarrow> Stop Segfault w'
              | Some a \<Rightarrow> parse_loop a 0 (cmds[0 := cmd']) opts' mem w'))"

subsection \<open>The watched commands (lines 267-290)\<close>

text \<open>Lines 267-271: the number of commands given \<^verbatim>\<open>-f\<close>.\<close>

definition count_watch :: "Cmd list \<Rightarrow> int" where
  "count_watch cmds = fold (\<lambda>i n. if watch (cmds ! i) then n + 1 else n) [0..<length cmds] 0"

text \<open>Lines 274-281: with no \<^verbatim>\<open>-f\<close>, every command that is not configuring is watched.\<close>

definition watch_by_default :: "Cmd list \<Rightarrow> int \<times> Cmd list" where
  "watch_by_default cmds =
     fold (\<lambda>i (n, cs). if \<not> configuring (cs ! i) then (n + 1, cs[i := (cs ! i)\<lparr>watch := True\<rparr>])
                        else (n, cs))
       [0..<length cmds] (0, cmds)"

text \<open>
  Lines 283-290: the array of pointers to the watched commands, as the list of their
  indices in \<^verbatim>\<open>cmds\<close>; \<^verbatim>\<open>watch_cmd_end\<close> is the length of the list so far.
\<close>

definition collect_watch :: "Cmd list \<Rightarrow> nat list" where
  "collect_watch cmds = fold (\<lambda>i ws. if watch (cmds ! i) then ws @ [i] else ws) [0..<length cmds] []"

definition derive_watch :: "Cmd list \<Rightarrow> int \<times> Cmd list \<times> nat list" where
  "derive_watch cmds =
     (let n = count_watch cmds;
          (n_watch_cmds, cmds') = (if 0 = n then watch_by_default cmds else (n, cmds))
      in (n_watch_cmds, cmds', collect_watch cmds'))"

subsection \<open>main (lines 257-311)\<close>

text \<open>
  Lines 298-305, the branch taken when \<^verbatim>\<open>running\<close> holds at line 297.  The loop reads
  the pids through the pointers of \<^verbatim>\<open>watch_cmds\<close> after \<^verbatim>\<open>run_cmds\<close> has stored
  them.
\<close>

definition main_phase ::
  "Opts \<Rightarrow> Cmd list \<Rightarrow> nat list \<Rightarrow> wait_ev list \<Rightarrow> world \<Rightarrow> (int \<times> wait_ev list) res" where
  "main_phase opts cmds watch_cmds evs w =
     (case run_cmds cmds w of
        Stop r w' \<Rightarrow> Stop r w'
      | Ok cmds' w1 \<Rightarrow>
          (case wait_for_requested_commands_to_exit (map ((!) cmds') watch_cmds) evs w1 of
             Stop r w' \<Rightarrow> Stop r w'
           | Ok (code, evs') w2 \<Rightarrow>
               let w3 = remove_term_and_int_handlers w2;
                   w4 = emit (Alarm WAIT_FOR_PROC_DEATH_TIMEOUT) w3
               in (case kill (if signal_everything opts then - 1 else 0) SIGTERM w4 of
                     Stop r w' \<Rightarrow> Stop r w'
                   | Ok u w5 \<Rightarrow>
                       (case deliver_all (sigs_after_arm w5) w5 of
                          Stop r w' \<Rightarrow> Stop r w'
                        | Ok u' w6 \<Rightarrow>
                            (case wait_for_all_processes_to_exit code evs' w6 of
                               Stop r w' \<Rightarrow> Stop r w'
                             | Ok (u'', evs'') w7 \<Rightarrow> Ok (code, evs'') w7)))))"

text \<open>
  Lines 267-295: the watched commands, the handlers, the configure phase.  The result
  is the state in which line 297 reads \<^verbatim>\<open>running\<close>.
\<close>

definition main_setup ::
  "Cmd list \<Rightarrow> wait_ev list \<Rightarrow> world \<Rightarrow> (Cmd list \<times> nat list \<times> wait_ev list) res" where
  "main_setup cmds evs w =
     (case derive_watch cmds of (n_watch_cmds, cmds0, watch_cmds) \<Rightarrow>
        (case install_term_and_int_handlers w of
           Stop r w' \<Rightarrow> Stop r w'
         | Ok u w1 \<Rightarrow>
             (case deliver_all (sigs_at_start w1) w1 of
                Stop r w' \<Rightarrow> Stop r w'
              | Ok u' w2 \<Rightarrow>
                  (case run_configure_cmds cmds0 evs w2 of
                     Stop r w' \<Rightarrow> Stop r w'
                   | Ok (cmds1, evs') w3 \<Rightarrow> Ok (cmds1, watch_cmds, evs') w3))))"

text \<open>
  Lines 267-310.  \<^verbatim>\<open>error_code\<close> is declared at line 294 without a value and assigned
  only at line 299: \<open>Return None\<close> is the return of the unassigned variable.
\<close>

definition main_body :: "Cmd list \<Rightarrow> Opts \<Rightarrow> wait_ev list \<Rightarrow> world \<Rightarrow> proc_end \<times> world" where
  "main_body cmds opts evs w =
     (case main_setup cmds evs w of
        Stop r w' \<Rightarrow> (r, w')
      | Ok (cmds1, watch_cmds, evs') w1 \<Rightarrow>
          if running w1 then
            (case main_phase opts cmds1 watch_cmds evs' w1 of
               Stop r w' \<Rightarrow> (r, w')
             | Ok (code, evs'') w2 \<Rightarrow> (Return (Some code), w2))
          else (Return None, w1))"

definition main :: "string list \<Rightarrow> wait_ev list \<Rightarrow> world \<Rightarrow> proc_end \<times> world" where
  "main argv evs w =
     (if length argv = 1 then (Return (Some 1), w)
      else
        (case parse_argv argv w of
           Stop r w' \<Rightarrow> (r, w')
         | Ok (cmds, opts, mem) w' \<Rightarrow> main_body cmds opts evs w'))"

text \<open>
  The state in which a process starts: \<^verbatim>\<open>running\<close> is true and
  \<^verbatim>\<open>alarm_exit_code\<close> is \<open>0\<close> (lines 23 and 99), no call has been made, and
  the dispositions are the defaults; the answers of the system are the parameters.
\<close>

definition start :: "int \<Rightarrow> (nat \<Rightarrow> pid_t) \<Rightarrow> (signal \<Rightarrow> handler \<Rightarrow> int) \<Rightarrow>
    signal list \<Rightarrow> signal list \<Rightarrow> world" where
  "start self fr sr s0 s1 =
     \<lparr>running = True, alarm_exit_code = 0, handlers = (\<lambda>s. SIG_DFL), log = [], forks = 0,
      getpid_ret = self, fork_ret = fr, sigaction_ret = sr, sigs_at_start = s0,
      sigs_after_arm = s1\<rparr>"

section \<open>Notions used to state the properties\<close>

text \<open>
  An event is quiet when no signal comes with it.  With the handlers of lines 134-149
  installed, a quiet event is the only kind that lets the supervision loop go on:
  \<^verbatim>\<open>SIGINT\<close> and \<^verbatim>\<open>SIGTERM\<close> clear \<^verbatim>\<open>running\<close>, \<^verbatim>\<open>SIGALRM\<close> exits.
\<close>

definition quiet :: "wait_ev \<Rightarrow> bool" where
  "quiet e \<longleftrightarrow> sigs_before e = [] \<and> sigs_during e = []"

definition reap_action :: "wait_ev \<Rightarrow> action" where
  "reap_action e = Waitpid (w_pid e) (w_status e) (w_errno e)"

text \<open>The state after the calls answered by \<open>evs\<close>, when they are quiet.\<close>

definition reaped :: "wait_ev list \<Rightarrow> world \<Rightarrow> world" where
  "reaped evs w = w\<lparr>log := log w @ map reap_action evs\<rparr>"

text \<open>A normal exit with a nonzero status.\<close>

definition failure :: "int \<Rightarrow> bool" where
  "failure status \<longleftrightarrow> WIFEXITED status \<and> WEXITSTATUS status \<noteq> 0"

text \<open>
  The first of the events \<open>evs\<close> that reports, for the pid of the command \<open>c\<close>, a
  normal exit with a nonzero status, if there is one.
\<close>

definition failing :: "wait_ev list \<Rightarrow> Cmd \<Rightarrow> wait_ev option" where
  "failing evs c = find (\<lambda>e. w_pid e = pid c \<and> failure (w_status e)) evs"

text \<open>The lowest index of a command of \<open>cmds\<close> for which the events report such an exit.\<close>

definition first_failing :: "Cmd list \<Rightarrow> wait_ev list \<Rightarrow> nat option" where
  "first_failing cmds evs = find (\<lambda>i. failing evs (cmds ! i) \<noteq> None) [0..<length cmds]"

text \<open>
  The exit status that the events \<open>evs\<close> report for the command of lowest index in
  \<open>cmds\<close> among those that exited normally with a nonzero status; \<open>0\<close> when there is
  none.  The order of the events plays no part in the choice of the command.
\<close>

definition aggregate :: "Cmd list \<Rightarrow> wait_ev list \<Rightarrow> int" where
  "aggregate cmds evs =
     (case first_failing cmds evs of
        None \<Rightarrow> 0
      | Some i \<Rightarrow> (case failing evs (cmds ! i) of Some e \<Rightarrow> WEXITSTATUS (w_status e) | None \<Rightarrow> 0))"

text \<open>The events that reap a command of \<open>cmds\<close>, and their number.\<close>

definition watched_ev :: "Cmd list \<Rightarrow> wait_ev \<Rightarrow> bool" where
  "watched_ev cmds e \<longleftrightarrow> (\<exists>c \<in> set cmds. w_pid e = pid c)"

definition reaped_count :: "Cmd list \<Rightarrow> wait_ev list \<Rightarrow> nat" where
  "reaped_count cmds evs = length (filter (watched_ev cmds) evs)"

text \<open>
  The events do not yet reap every command of \<open>cmds\<close>.  No event reaps a command of
  the empty list, which is never complete.
\<close>

definition incomplete :: "Cmd list \<Rightarrow> wait_ev list \<Rightarrow> bool" where
  "incomplete cmds evs \<longleftrightarrow> cmds = [] \<or> reaped_count cmds evs < length cmds"

text \<open>No command of \<open>cmds\<close> is reaped twice: a process exits once.\<close>

definition once_reaped :: "Cmd list \<Rightarrow> wait_ev list \<Rightarrow> bool" where
  "once_reaped cmds evs \<longleftrightarrow> distinct (map w_pid (filter (watched_ev cmds) evs))"

text \<open>A signal arrives with the event \<open>e\<close> and \<^verbatim>\<open>running\<close> is false at line 58.\<close>

definition stops_before :: "wait_ev \<Rightarrow> world \<Rightarrow> world \<Rightarrow> bool" where
  "stops_before e w w' \<longleftrightarrow> deliver_all (sigs_before e) w = Ok () w' \<and> \<not> running w'"

text \<open>\<^verbatim>\<open>running\<close> holds at line 58 and is false at line 68, after the call.\<close>

definition stops_after :: "wait_ev \<Rightarrow> world \<Rightarrow> world \<Rightarrow> bool" where
  "stops_after e w w' \<longleftrightarrow>
     (\<exists>w1. deliver_all (sigs_before e) w = Ok () w1 \<and> running w1 \<and>
        waitpid e w1 = Ok (w_pid e, w_status e, w_errno e) w' \<and> \<not> running w')"

text \<open>
  The call answered by \<open>e\<close> is made and the loop goes on to its scan: \<^verbatim>\<open>running\<close>
  holds at line 58 and still holds at line 68.  The result is the state at line 68.
  \<open>passes\<close> is the same for a list of successive calls, and \<open>passing\<close> is the longest
  prefix of the events for which this is so.
\<close>

definition pass :: "wait_ev \<Rightarrow> world \<Rightarrow> world option" where
  "pass e w =
     (case deliver_all (sigs_before e) w of
        Stop r w' \<Rightarrow> None
      | Ok u w1 \<Rightarrow>
          if \<not> running w1 then None
          else (case waitpid e w1 of
                  Stop r w' \<Rightarrow> None
                | Ok x w2 \<Rightarrow> if \<not> running w2 then None else Some w2))"

fun passes :: "wait_ev list \<Rightarrow> world \<Rightarrow> world option" where
  "passes [] w = Some w"
| "passes (e # es) w = (case pass e w of None \<Rightarrow> None | Some w' \<Rightarrow> passes es w')"

fun passing :: "wait_ev list \<Rightarrow> world \<Rightarrow> wait_ev list" where
  "passing [] w = []"
| "passing (e # es) w = (case pass e w of None \<Rightarrow> [] | Some w' \<Rightarrow> e # passing es w')"

text \<open>
  The position of the event with which the number of reaped exits of commands of \<open>cmds\<close>
  reaches the number of these commands.
\<close>

definition completion :: "Cmd list \<Rightarrow> wait_ev list \<Rightarrow> nat option" where
  "completion cmds evs =
     find (\<lambda>k. watched_ev cmds (evs ! k) \<and> reaped_count cmds (take (Suc k) evs) = length cmds)
       [0..<length evs]"

text \<open>
  The exits the loop records in a run: those reaped by the successive calls for as
  long as \<^verbatim>\<open>running\<close> holds at lines 58 and 68, up to the one that completes the count.
  The exit reaped by a call after which line 68 finds \<^verbatim>\<open>running\<close> false is not among
  them: line 68 returns before the scan.
\<close>

definition recorded_exits :: "Cmd list \<Rightarrow> wait_ev list \<Rightarrow> world \<Rightarrow> wait_ev list" where
  "recorded_exits cmds evs w =
     (let p = passing evs w
      in case completion cmds p of Some k \<Rightarrow> take (Suc k) p | None \<Rightarrow> p)"

text \<open>The code the loop returns, when it returns.\<close>

definition returned :: "(int \<times> wait_ev list) res \<Rightarrow> int option" where
  "returned r = (case r of Ok (c, rest) w \<Rightarrow> Some c | Stop e w \<Rightarrow> None)"

text \<open>What lines 73-84 do to the loop state when the reaped pid is found at index \<open>i\<close>.\<close>

definition hit :: "nat \<Rightarrow> int \<Rightarrow> loop_state \<Rightarrow> loop_state" where
  "hit i status st =
     (if failure status \<and> int i < error_code_idx st
      then st\<lparr>error_code := WEXITSTATUS status, error_code_idx := int i,
              cmds_left := cmds_left st - 1\<rparr>
      else st\<lparr>cmds_left := cmds_left st - 1\<rparr>)"

text \<open>The loop invariant: what the loop state holds after the scan of the events \<open>evs\<close>.\<close>

definition recorded :: "Cmd list \<Rightarrow> loop_state \<Rightarrow> wait_ev list \<Rightarrow> bool" where
  "recorded cmds st evs \<longleftrightarrow>
     cmds_left st = int (length cmds) - int (reaped_count cmds evs) \<and>
     error_code st = aggregate cmds evs \<and>
     error_code_idx st = (case first_failing cmds evs of None \<Rightarrow> INT_MAX | Some i \<Rightarrow> int i)"

text \<open>The command with its \<^verbatim>\<open>watch\<close> flag set by line 278.\<close>

definition default_watch :: "Cmd \<Rightarrow> Cmd" where
  "default_watch c = (if configuring c then c else c\<lparr>watch := True\<rparr>)"

text \<open>The state in which a computation ends, whether it goes on or stops.\<close>

fun final :: "'a res \<Rightarrow> world" where
  "final (Ok x w) = w"
| "final (Stop r w) = w"

definition is_fork :: "action \<Rightarrow> bool" where
  "is_fork a = (case a of Fork x p \<Rightarrow> True | _ \<Rightarrow> False)"

definition fork_arg :: "action \<Rightarrow> nat option" where
  "fork_arg a = (case a of Fork x p \<Rightarrow> x | _ \<Rightarrow> None)"

definition is_wait :: "action \<Rightarrow> bool" where
  "is_wait a = (case a of Waitpid p s e \<Rightarrow> True | _ \<Rightarrow> False)"

text \<open>The answer that ends a drain: \<^verbatim>\<open>waitpid\<close> returned \<open>-1\<close> with \<^verbatim>\<open>ECHILD\<close>.\<close>

definition no_children :: "action \<Rightarrow> bool" where
  "no_children a = (case a of Waitpid p s e \<Rightarrow> p = - 1 \<and> e = ECHILD | _ \<Rightarrow> False)"

definition is_sigaction :: "action \<Rightarrow> bool" where
  "is_sigaction a = (case a of Sigaction s h r \<Rightarrow> True | _ \<Rightarrow> False)"

text \<open>What launching leaves unchanged in the commands: everything but the pids.\<close>

definition flags :: "Cmd list \<Rightarrow> nat \<Rightarrow> nat option \<times> bool \<times> bool" where
  "flags cmds j = (args (cmds ! j), watch (cmds ! j), configuring (cmds ! j))"

text \<open>The arguments of the configuring commands among the indices \<open>is\<close>, and of the others.\<close>

definition configuring_args :: "Cmd list \<Rightarrow> nat list \<Rightarrow> nat option list" where
  "configuring_args cmds is = map (\<lambda>i. args (cmds ! i)) (filter (\<lambda>i. configuring (cmds ! i)) is)"

definition main_args :: "Cmd list \<Rightarrow> nat list \<Rightarrow> nat option list" where
  "main_args cmds is = map (\<lambda>i. args (cmds ! i)) (filter (\<lambda>i. \<not> configuring (cmds ! i)) is)"

text \<open>The log entries of lines 134-149 when every \<^verbatim>\<open>sigaction\<close> succeeds.\<close>

definition installs :: "action list" where
  "installs = [Sigaction SIGINT Handler_on_signal 0, Sigaction SIGTERM Handler_on_signal 0,
     Sigaction SIGALRM Handler_on_alarm 0]"

text \<open>
  The calls of lines 300-302: the two handlers are set to \<^verbatim>\<open>SIG_IGN\<close> (the second
  call is not made when the first fails, line 157), the alarm is armed, the signal is
  sent.
\<close>

definition shutdown_calls :: "Opts \<Rightarrow> int \<Rightarrow> int \<Rightarrow> action list" where
  "shutdown_calls opts r1 r2 =
     Sigaction SIGINT SIG_IGN r1 # (if r1 = 0 then [Sigaction SIGTERM SIG_IGN r2] else []) @
     [Alarm WAIT_FOR_PROC_DEATH_TIMEOUT, Kill (if signal_everything opts then - 1 else 0) SIGTERM]"

definition is_kill :: "action \<Rightarrow> bool" where
  "is_kill a = (case a of Kill t s \<Rightarrow> True | _ \<Rightarrow> False)"

text \<open>The commands and options \<^verbatim>\<open>parse_argv\<close> builds, when it returns.\<close>

definition parsed :: "string list \<Rightarrow> world \<Rightarrow> Cmd list \<times> Opts" where
  "parsed argv w =
     (case parse_argv argv w of
        Ok (cmds, opts, mem) w' \<Rightarrow> (cmds, opts)
      | Stop r w' \<Rightarrow> ([], \<lparr>signal_everything = False\<rparr>))"

text \<open>The state in which line 297 reads \<^verbatim>\<open>running\<close>, when the run gets there.\<close>

definition line_297 :: "string list \<Rightarrow> wait_ev list \<Rightarrow> world \<Rightarrow> world option" where
  "line_297 argv evs w =
     (if length argv = 1 then None
      else
        (case parse_argv argv w of
           Stop r w' \<Rightarrow> None
         | Ok (cmds, opts, mem) w' \<Rightarrow>
             (case main_setup cmds evs w' of
                Stop r w'' \<Rightarrow> None
              | Ok x w1 \<Rightarrow> Some w1)))"

text \<open>A signal comes first with the event \<open>e\<close>.\<close>

definition arrives_first :: "signal \<Rightarrow> wait_ev \<Rightarrow> bool" where
  "arrives_first s e \<longleftrightarrow>
     (case sigs_before e of
        x # xs \<Rightarrow> x = s
      | [] \<Rightarrow> (case sigs_during e of x # xs \<Rightarrow> x = s | [] \<Rightarrow> False))"

text \<open>
  A command group as the usage text has it: the option words, then the words of the
  command.  An option word is one \<^verbatim>\<open>getopt\<close> reads as options; the command starts
  with a word that is not one and holds no separator.
\<close>

type_synonym group = "string list \<times> string list"

definition flag_word :: "string \<Rightarrow> bool" where
  "flag_word s \<longleftrightarrow> \<not> nonoption s \<and> s \<noteq> ''--'' \<and> s \<noteq> SEP"

definition wf_group :: "group \<Rightarrow> bool" where
  "wf_group g \<longleftrightarrow>
     list_all flag_word (fst g) \<and> snd g \<noteq> [] \<and> nonoption (hd (snd g)) \<and> SEP \<notin> set (snd g)"

text \<open>The words of the command line for a list of groups, with the separators.\<close>

fun command_line :: "group list \<Rightarrow> string list" where
  "command_line [] = []"
| "command_line [g] = fst g @ snd g"
| "command_line (g # g' # gs) = fst g @ snd g @ SEP # command_line (g' # gs)"

text \<open>
  The usage errors of a group: \<^verbatim>\<open>-a\<close> in a process that is not process 1, and
  \<^verbatim>\<open>-c\<close> together with \<^verbatim>\<open>-f\<close>.
\<close>

definition has_flag :: "char \<Rightarrow> group \<Rightarrow> bool" where
  "has_flag c g \<longleftrightarrow> c \<in> set (concat (map tl (fst g)))"

definition usage_error :: "int \<Rightarrow> group \<Rightarrow> bool" where
  "usage_error self g \<longleftrightarrow>
     has_flag (CHR ''a'') g \<and> self \<noteq> 1 \<or> has_flag (CHR ''c'') g \<and> has_flag (CHR ''f'') g"

text \<open>
  The exit status of the process, and a run that ends with status 1 in the world it
  began in: no system call has been made.
\<close>

definition exit_status :: "proc_end \<Rightarrow> int option" where
  "exit_status r = (case r of Return c \<Rightarrow> c | Exit c \<Rightarrow> Some c | _ \<Rightarrow> None)"

definition rejected :: "proc_end \<times> world \<Rightarrow> world \<Rightarrow> bool" where
  "rejected run w \<longleftrightarrow> exit_status (fst run) = Some 1 \<and> snd run = w"

text \<open>Two command lines with a usage error in one group.\<close>

definition groups1 :: "group list" where
  "groups1 = [([], [''y'', ''-v'']), ([''-c'', ''-f''], [''x''])]"

definition groups2 :: "group list" where
  "groups2 = [([''-fa''], [''y'']), ([], [''x''])]"

text \<open>The characters \<^verbatim>\<open>getopt\<close> returns for a list of option words.\<close>

definition opt_chars :: "string list \<Rightarrow> string" where
  "opt_chars fl = concat (map (\<lambda>s. map (\<lambda>c. if c \<in> set ''acf'' then c else CHR ''?'') (tl s)) fl)"

text \<open>The number of separators in a part of the memory.\<close>

definition seps :: "string option list \<Rightarrow> nat" where
  "seps xs = length (filter (\<lambda>x. x = Some SEP) xs)"

text \<open>Concrete inputs for the examples below.\<close>

definition exit_ev :: "pid_t \<Rightarrow> int \<Rightarrow> wait_ev" where
  "exit_ev p code =
     \<lparr>sigs_before = [], w_pid = p, w_status = code * 256, w_errno = EOTHER, sigs_during = []\<rparr>"

definition no_child :: wait_ev where
  "no_child = \<lparr>sigs_before = [], w_pid = - 1, w_status = 0, w_errno = ECHILD, sigs_during = []\<rparr>"

definition watched_cmd :: "pid_t \<Rightarrow> Cmd" where
  "watched_cmd p = \<lparr>args = None, watch = True, configuring = False, pid = p\<rparr>"

text \<open>Watched commands and exits for the examples of the supervision loop.\<close>

definition two_cmds :: "Cmd list" where
  "two_cmds = [watched_cmd 10, watched_cmd 11]"

definition three_cmds :: "Cmd list" where
  "three_cmds = [watched_cmd 20, watched_cmd 21, watched_cmd 22]"

definition three_exits :: "wait_ev list" where
  "three_exits = [exit_ev 22 4, exit_ev 21 3, exit_ev 20 2, exit_ev 99 1]"

definition four_exits :: "wait_ev list" where
  "four_exits = [exit_ev 10 1, exit_ev 99 0, exit_ev 11 0, (exit_ev 98 0)\<lparr>sigs_before := [SIGTERM]\<rparr>]"

text \<open>A run with one configuring command, one watched command and one other.\<close>

definition argv1 :: "string list" where
  "argv1 = [''sb'', ''-c'', ''cfg'', ''---'', ''-f'', ''a'', ''---'', ''b'']"

definition evs1 :: "wait_ev list" where
  "evs1 = [exit_ev 10 0, no_child, exit_ev 11 3, exit_ev 12 0, no_child]"

text \<open>A run in which a termination signal arrives during the configure phase.\<close>

definition argv2 :: "string list" where
  "argv2 = [''sb'', ''-c'', ''cfg'', ''---'', ''a'']"

definition evs2 :: "wait_ev list" where
  "evs2 = [(exit_ev 10 0)\<lparr>sigs_during := [SIGTERM]\<rparr>, no_child]"

text \<open>A run of one command that exits with status 2.\<close>

definition argv3 :: "string list" where
  "argv3 = [''sb'', ''a'']"

definition evs3 :: "wait_ev list" where
  "evs3 = [exit_ev 10 2, no_child]"

definition sys :: world where
  "sys = start 1 (\<lambda>k. 10 + int k) (\<lambda>s h. 0) [] []"

text \<open>The dispositions after lines 134-149.\<close>

definition installed :: "world \<Rightarrow> world" where
  "installed w = w\<lparr>handlers :=
     (\<lambda>s. case s of SIGINT \<Rightarrow> Handler_on_signal | SIGTERM \<Rightarrow> Handler_on_signal
              | SIGALRM \<Rightarrow> Handler_on_alarm)\<rparr>"

section \<open>The supervision loop\<close>

subsection \<open>The scan of the watched commands\<close>

lemma scan_miss:
  "(\<And>j. i \<le> j \<Longrightarrow> j < length cmds \<Longrightarrow> pid (cmds ! j) \<noteq> p) \<Longrightarrow>
     scan_watch_cmds cmds p s i st = Inr st"
proof (induction cmds p s i st rule: scan_watch_cmds.induct)
  case (1 cmds p s i st)
  show ?case
  proof (cases "i < length cmds")
    case True
    with 1 show ?thesis by (subst scan_watch_cmds.simps) auto
  next
    case False
    then show ?thesis by (subst scan_watch_cmds.simps) simp
  qed
qed

lemma scan_hit:
  "i \<le> k \<Longrightarrow> k < length cmds \<Longrightarrow> pid (cmds ! k) = p \<Longrightarrow>
   (\<And>j. i \<le> j \<Longrightarrow> j < k \<Longrightarrow> pid (cmds ! j) \<noteq> p) \<Longrightarrow>
     scan_watch_cmds cmds p s i st =
       (if cmds_left st = 1 then Inl (error_code (hit k s st)) else Inr (hit k s st))"
proof (induction cmds p s i st rule: scan_watch_cmds.induct)
  case (1 cmds p s i st)
  show ?case
  proof (cases "i = k")
    case True
    with 1(3,4) show ?thesis
      by (subst scan_watch_cmds.simps) (auto simp: hit_def failure_def Let_def)
  next
    case False
    with 1(2) have lt: "i < k" by simp
    with 1(5) have ne: "pid (cmds ! i) \<noteq> p" by simp
    have "scan_watch_cmds cmds p s i st = scan_watch_cmds cmds p s (Suc i) st"
      using lt 1(3) ne by (subst scan_watch_cmds.simps) simp
    also have "\<dots> = (if cmds_left st = 1 then Inl (error_code (hit k s st)) else Inr (hit k s st))"
      using 1 lt ne by (intro 1(1)) auto
    finally show ?thesis .
  qed
qed

lemma first_index:
  assumes "watched_ev cmds e"
  obtains k where "k < length cmds" "pid (cmds ! k) = w_pid e"
    "\<And>j. j < k \<Longrightarrow> pid (cmds ! j) \<noteq> w_pid e"
proof -
  let ?P = "\<lambda>k. k < length cmds \<and> pid (cmds ! k) = w_pid e"
  from assms obtain c where "c \<in> set cmds" "pid c = w_pid e"
    by (auto simp: watched_ev_def)
  then have "\<exists>k. ?P k" by (auto simp: in_set_conv_nth)
  then obtain k where k: "?P k" "\<forall>j<k. \<not> ?P j"
    using exists_least_iff [of ?P] by auto
  then have "pid (cmds ! j) \<noteq> w_pid e" if "j < k" for j
    using that by auto
  with k(1) that show thesis by blast
qed

lemma scan_unwatched:
  "\<not> watched_ev cmds e \<Longrightarrow> scan_watch_cmds cmds (w_pid e) s 0 st = Inr st"
  by (rule scan_miss) (metis nth_mem watched_ev_def)

subsection \<open>Calls after which the loop goes on\<close>

lemma quiet_deliver [simp]: "quiet e \<Longrightarrow> deliver_all (sigs_before e) w = Ok () w"
  by (simp add: quiet_def)

lemma quiet_waitpid [simp]:
  "quiet e \<Longrightarrow> waitpid e w = Ok (w_pid e, w_status e, w_errno e) (emit (reap_action e) w)"
  by (simp add: quiet_def waitpid_def reap_action_def)

lemma running_emit [simp]: "running (emit a w) = running w"
  by (simp add: emit_def)

lemma running_reaped [simp]: "running (reaped evs w) = running w"
  by (simp add: reaped_def)

lemma reaped_Nil [simp]: "reaped [] w = w"
  by (simp add: reaped_def)

lemma reaped_Cons: "reaped (e # es) w = reaped es (emit (reap_action e) w)"
  by (simp add: reaped_def emit_def)

lemma reaped_append: "reaped (xs @ ys) w = reaped ys (reaped xs w)"
  by (simp add: reaped_def)

lemma log_deliver: "deliver s w = Ok u w' \<Longrightarrow> log w' = log w"
  by (auto simp: deliver_def on_signal_def on_alarm_def split: handler.splits)

lemma log_deliver_all: "deliver_all ss w = Ok u w' \<Longrightarrow> log w' = log w"
proof (induction ss arbitrary: w)
  case Nil
  then show ?case by simp
next
  case (Cons s ss)
  then show ?case by (auto split: res.splits dest: log_deliver)
qed

lemma log_waitpid:
  "waitpid e w = Ok r w' \<Longrightarrow> log w' = log w @ [reap_action e]"
  by (auto simp: waitpid_def reap_action_def emit_def split: res.splits dest: log_deliver_all)

lemma wait_loop_stops_before:
  "stops_before e w w' \<Longrightarrow>
     wait_loop cmds st (e # es) w = Ok (error_code st, e\<lparr>sigs_before := []\<rparr> # es) w'"
  by (simp add: stops_before_def)

lemma wait_loop_stops_after:
  "stops_after e w w' \<Longrightarrow> wait_loop cmds st (e # es) w = Ok (error_code st, es) w'"
  by (auto simp: stops_after_def)

lemma waitpid_Ok: "waitpid e w = Ok x w' \<Longrightarrow> x = (w_pid e, w_status e, w_errno e)"
  by (auto simp: waitpid_def split: res.splits)

lemma wait_loop_pass:
  assumes "pass e w = Some w'"
  shows "wait_loop cmds st (e # es) w =
     (case scan_watch_cmds cmds (w_pid e) (w_status e) 0 st of
        Inl c \<Rightarrow> Ok (c, es) w'
      | Inr st' \<Rightarrow> wait_loop cmds st' es w')"
proof -
  from assms obtain u w1 where d: "deliver_all (sigs_before e) w = Ok u w1" "running w1"
    by (auto simp: pass_def split: res.splits if_splits)
  with assms obtain x where x: "waitpid e w1 = Ok x w'" "running w'"
    by (auto simp: pass_def split: res.splits if_splits)
  from waitpid_Ok [OF x(1)] have "x = (w_pid e, w_status e, w_errno e)" .
  with d x show ?thesis by simp
qed

lemma wait_loop_no_pass:
  assumes "pass e w = None" "wait_loop cmds st (e # es) w = Ok (c, rest) w'"
  shows "c = error_code st \<and> \<not> running w' \<and>
    (stops_before e w w' \<and> rest = e\<lparr>sigs_before := []\<rparr> # es \<or> stops_after e w w' \<and> rest = es)"
proof (cases "deliver_all (sigs_before e) w")
  case (Stop r w1)
  with assms(2) show ?thesis by simp
next
  case (Ok u w1)
  show ?thesis
  proof (cases "running w1")
    case False
    with Ok assms(2) show ?thesis by (auto simp: stops_before_def)
  next
    case True
    show ?thesis
    proof (cases "waitpid e w1")
      case (Stop r w2)
      with Ok True assms(2) show ?thesis by simp
    next
      case ok2: (Ok x w2)
      from waitpid_Ok [OF ok2] have x: "x = (w_pid e, w_status e, w_errno e)" .
      from assms(1) Ok True ok2 have nr: "\<not> running w2"
        by (auto simp: pass_def split: if_splits)
      with Ok True ok2 x assms(2) show ?thesis by (auto simp: stops_after_def)
    qed
  qed
qed

lemma passes_append:
  "passes (xs @ ys) w = (case passes xs w of None \<Rightarrow> None | Some w' \<Rightarrow> passes ys w')"
  by (induction xs arbitrary: w) (auto split: option.splits)

lemma pass_running: "pass e w = Some w' \<Longrightarrow> running w'"
  by (auto simp: pass_def split: res.splits if_splits)

lemma passes_running: "passes pre w = Some w' \<Longrightarrow> pre \<noteq> [] \<Longrightarrow> running w'"
proof (induction pre arbitrary: w rule: rev_induct)
  case Nil
  then show ?case by simp
next
  case (snoc x xs)
  then show ?case by (auto simp: passes_append split: option.splits dest: pass_running)
qed

lemma pass_log: "pass e w = Some w' \<Longrightarrow> log w' = log w @ [reap_action e]"
  by (auto simp: pass_def split: res.splits if_splits dest!: log_deliver_all log_waitpid)

lemma passes_log: "passes pre w = Some w' \<Longrightarrow> log w' = log w @ map reap_action pre"
proof (induction pre arbitrary: w)
  case Nil
  then show ?case by simp
next
  case (Cons e pre)
  then show ?case by (auto split: option.splits dest!: pass_log)
qed

lemma quiet_pass: "quiet e \<Longrightarrow> running w \<Longrightarrow> pass e w = Some (emit (reap_action e) w)"
  by (simp add: pass_def)

lemma quiet_passes: "list_all quiet evs \<Longrightarrow> running w \<Longrightarrow> passes evs w = Some (reaped evs w)"
proof (induction evs arbitrary: w)
  case Nil
  then show ?case by simp
next
  case (Cons e es)
  then show ?case by (simp add: quiet_pass reaped_Cons)
qed

lemma passing_split:
  "\<exists>r w1. evs = passing evs w @ r \<and> passes (passing evs w) w = Some w1 \<and>
     (case r of [] \<Rightarrow> True | e # es \<Rightarrow> pass e w1 = None)"
proof (induction evs arbitrary: w)
  case Nil
  show ?case by simp
next
  case (Cons e es)
  show ?case
  proof (cases "pass e w")
    case None
    then show ?thesis by simp
  next
    case (Some w2)
    from Cons [of w2] obtain r w1 where "es = passing es w2 @ r"
      "passes (passing es w2) w2 = Some w1" "case r of [] \<Rightarrow> True | e # es \<Rightarrow> pass e w1 = None"
      by blast
    with Some show ?thesis by (intro exI [of _ r] exI [of _ w1]) simp
  qed
qed

subsection \<open>The recorded code\<close>

lemma find_append:
  "find P (xs @ ys) = (case find P xs of None \<Rightarrow> find P ys | Some x \<Rightarrow> Some x)"
  by (induction xs) auto

lemma find_upt_Some:
  "find P [0..<n] = Some i \<longleftrightarrow> i < n \<and> P i \<and> (\<forall>j<i. \<not> P j)"
  unfolding find_Some_iff by (auto simp: nth_upt)

lemma find_upt_None: "find P [0..<n] = None \<longleftrightarrow> (\<forall>j<n. \<not> P j)"
  by (auto simp: find_None_iff)

lemma failing_snoc:
  "failing (evs @ [e]) c =
     (case failing evs c of
        Some x \<Rightarrow> Some x
      | None \<Rightarrow> if w_pid e = pid c \<and> failure (w_status e) then Some e else None)"
  by (simp add: failing_def find_append split: option.splits)

lemma first_failing_Some:
  "first_failing cmds evs = Some i \<longleftrightarrow>
     i < length cmds \<and> failing evs (cmds ! i) \<noteq> None \<and> (\<forall>j<i. failing evs (cmds ! j) = None)"
  unfolding first_failing_def find_upt_Some by simp

lemma first_failing_None:
  "first_failing cmds evs = None \<longleftrightarrow> (\<forall>j<length cmds. failing evs (cmds ! j) = None)"
  unfolding first_failing_def find_upt_None by simp

lemma first_failing_cong:
  assumes "\<And>j. j < length cmds \<Longrightarrow> failing evs' (cmds ! j) = failing evs (cmds ! j)"
  shows "first_failing cmds evs' = first_failing cmds evs"
  unfolding first_failing_def using assms by (intro find_cong) auto

lemma aggregate_cong:
  assumes "\<And>j. j < length cmds \<Longrightarrow> failing evs' (cmds ! j) = failing evs (cmds ! j)"
  shows "aggregate cmds evs' = aggregate cmds evs"
proof -
  note ff = first_failing_cong [of cmds evs' evs, OF assms]
  show ?thesis
  proof (cases "first_failing cmds evs")
    case None
    with ff show ?thesis by (simp add: aggregate_def)
  next
    case (Some i)
    then have "i < length cmds" by (simp add: first_failing_Some)
    with ff Some assms [of i] show ?thesis by (simp add: aggregate_def)
  qed
qed

lemma aggregate_none:
  assumes "\<And>j. j < length cmds \<Longrightarrow> failing evs (cmds ! j) = None"
  shows "aggregate cmds evs = 0"
proof -
  from assms have "first_failing cmds evs = None" by (simp add: first_failing_None)
  then show ?thesis by (simp add: aggregate_def)
qed

lemma aggregate_first:
  assumes "i < length cmds" "failing evs (cmds ! i) = Some x"
    "\<And>j. j < i \<Longrightarrow> failing evs (cmds ! j) = None"
  shows "aggregate cmds evs = WEXITSTATUS (w_status x)"
proof -
  from assms have "first_failing cmds evs = Some i" by (simp add: first_failing_Some)
  with assms(2) show ?thesis by (simp add: aggregate_def)
qed

lemma aggregate_zero:
  assumes "\<forall>x \<in> set evs. watched_ev cmds x \<longrightarrow> \<not> failure (w_status x)"
  shows "aggregate cmds evs = 0"
proof (rule aggregate_none)
  fix j assume "j < length cmds"
  then have "cmds ! j \<in> set cmds" by simp
  with assms show "failing evs (cmds ! j) = None"
    by (auto simp: failing_def find_None_iff watched_ev_def)
qed

lemma find_filter: "find P xs = (case filter P xs of [] \<Rightarrow> None | x # ys \<Rightarrow> Some x)"
  by (induction xs) auto

lemma mset_short:
  assumes "mset xs = mset ys" "length xs \<le> 1"
  shows "xs = ys"
proof (cases xs)
  case Nil
  with assms(1) show ?thesis by simp
next
  case (Cons x zs)
  with assms(2) have "xs = [x]" by simp
  with assms(1) show ?thesis by (metis mset_single_iff_right mset.simps(1) mset.simps(2))
qed

lemma failing_mset:
  assumes "once_reaped cmds evs" "mset evs' = mset evs" "c \<in> set cmds"
  shows "failing evs' c = failing evs c"
proof -
  let ?P = "\<lambda>e. w_pid e = pid c \<and> failure (w_status e)"
  have fw: "filter ?P evs = filter ?P (filter (watched_ev cmds) evs)"
    using assms(3) by (auto simp: watched_ev_def intro!: filter_cong)
  have "distinct (map w_pid (filter ?P (filter (watched_ev cmds) evs)))"
    using assms(1) unfolding once_reaped_def by (rule distinct_map_filter)
  then have d: "distinct (map w_pid (filter ?P evs))" using fw by simp
  have "set (map w_pid (filter ?P evs)) \<subseteq> {pid c}" by auto
  then have "card (set (map w_pid (filter ?P evs))) \<le> 1"
    by (metis card_mono finite.emptyI finite.insertI card_1_singleton_iff order_refl
        is_singletonI is_singleton_altdef)
  with d have len: "length (filter ?P evs) \<le> 1"
    by (metis distinct_card length_map)
  have "mset (filter ?P evs) = mset (filter ?P evs')" using assms(2) by (metis mset_filter)
  from mset_short [OF this len] show ?thesis by (simp add: failing_def find_filter)
qed

lemma aggregate_mset:
  assumes "once_reaped cmds evs" "mset evs' = mset evs"
  shows "aggregate cmds evs' = aggregate cmds evs"
  by (rule aggregate_cong) (rule failing_mset [OF assms], simp)

lemma reaped_count_snoc:
  "reaped_count cmds (evs @ [e]) = reaped_count cmds evs + (if watched_ev cmds e then 1 else 0)"
  by (simp add: reaped_count_def)

lemma reaped_count_append:
  "reaped_count cmds (xs @ ys) = reaped_count cmds xs + reaped_count cmds ys"
  by (simp add: reaped_count_def)

lemma recorded_aggregate: "recorded cmds st evs \<Longrightarrow> error_code st = aggregate cmds evs"
  by (simp add: recorded_def)

lemma recorded_init:
  "recorded cmds \<lparr>cmds_left = int (length cmds), error_code = 0, error_code_idx = INT_MAX\<rparr> []"
proof -
  have "first_failing cmds [] = None" by (simp add: first_failing_None failing_def)
  then show ?thesis by (simp add: recorded_def reaped_count_def aggregate_def)
qed

lemma recorded_miss:
  assumes "recorded cmds st evs" "\<not> watched_ev cmds e"
  shows "recorded cmds st (evs @ [e])"
proof -
  have ne: "w_pid e \<noteq> pid (cmds ! j)" if "j < length cmds" for j
    using assms(2) that by (auto simp: watched_ev_def)
  have f: "failing (evs @ [e]) (cmds ! j) = failing evs (cmds ! j)" if "j < length cmds" for j
    using ne [OF that] by (simp add: failing_snoc split: option.splits)
  have c: "reaped_count cmds (evs @ [e]) = reaped_count cmds evs"
    using assms(2) by (simp add: reaped_count_def)
  have "first_failing cmds (evs @ [e]) = first_failing cmds evs"
    by (rule first_failing_cong) (rule f)
  moreover have "aggregate cmds (evs @ [e]) = aggregate cmds evs"
    by (rule aggregate_cong) (rule f)
  ultimately show ?thesis using assms(1) c by (simp add: recorded_def)
qed

lemma recorded_hit:
  assumes inv: "recorded cmds st evs"
    and k: "k < length cmds" "pid (cmds ! k) = w_pid e" "\<And>j. j < k \<Longrightarrow> pid (cmds ! j) \<noteq> w_pid e"
    and bound: "int (length cmds) \<le> INT_MAX"
  shows "recorded cmds (hit k (w_status e) st) (evs @ [e])"
proof -
  let ?new = "evs @ [e]"
  let ?s = "w_status e"
  have we: "watched_ev cmds e"
    using k(1,2) by (auto simp: watched_ev_def intro!: bexI [of _ "cmds ! k"])
  have cnt: "reaped_count cmds ?new = reaped_count cmds evs + 1"
    using we by (simp add: reaped_count_def)
  from inv have left: "cmds_left st = int (length cmds) - int (reaped_count cmds evs)"
    and code: "error_code st = aggregate cmds evs"
    and idx: "error_code_idx st = (case first_failing cmds evs of None \<Rightarrow> INT_MAX | Some i \<Rightarrow> int i)"
    by (simp_all add: recorded_def)
  have left': "cmds_left (hit k ?s st) = int (length cmds) - int (reaped_count cmds ?new)"
    using left cnt by (simp add: hit_def)
  have kmax: "int k < INT_MAX" using k(1) bound by simp
  have keep: "failing ?new c = failing evs c" if "failing evs c \<noteq> None" for c
    using that by (auto simp: failing_snoc)
  have below: "failing ?new (cmds ! j) = failing evs (cmds ! j)" if "j < k" for j
    using k(3) [OF that] by (auto simp: failing_snoc split: option.splits)
  consider (A) "failure ?s" "int k < error_code_idx st"
    | (B) "failure ?s" "\<not> int k < error_code_idx st"
    | (C) "\<not> failure ?s" by blast
  then have "error_code (hit k ?s st) = aggregate cmds ?new \<and>
      error_code_idx (hit k ?s st) = (case first_failing cmds ?new of None \<Rightarrow> INT_MAX | Some i \<Rightarrow> int i)"
  proof cases
    case A
    have none: "failing evs (cmds ! j) = None" if "j \<le> k" for j
    proof (cases "first_failing cmds evs")
      case None
      with that k(1) show ?thesis by (simp add: first_failing_None)
    next
      case (Some i)
      with idx A(2) have "k < i" by simp
      with Some that show ?thesis by (simp add: first_failing_Some)
    qed
    have fk: "failing ?new (cmds ! k) = Some e"
      using none [of k] k(2) A(1) by (simp add: failing_snoc)
    have "\<forall>j<k. failing ?new (cmds ! j) = None"
      using below none by simp
    with fk k(1) have ff: "first_failing cmds ?new = Some k" by (simp add: first_failing_Some)
    with fk have "aggregate cmds ?new = WEXITSTATUS ?s" by (simp add: aggregate_def)
    with ff A show ?thesis by (simp add: hit_def)
  next
    case B
    from B(2) kmax idx obtain i where i: "first_failing cmds evs = Some i" "i \<le> k"
      by (cases "first_failing cmds evs") auto
    then have fi: "i < length cmds" "failing evs (cmds ! i) \<noteq> None"
      "\<forall>j<i. failing evs (cmds ! j) = None" by (simp_all add: first_failing_Some)
    have same: "failing ?new (cmds ! i) = failing evs (cmds ! i)" using fi(2) by (rule keep)
    have "\<forall>j<i. failing ?new (cmds ! j) = None"
      using fi(3) below i(2) by simp
    with fi same have ff: "first_failing cmds ?new = Some i" by (simp add: first_failing_Some)
    have "aggregate cmds ?new = aggregate cmds evs"
      using ff i(1) same by (simp add: aggregate_def)
    with ff i(1) idx code B show ?thesis by (simp add: hit_def)
  next
    case C
    have f: "failing ?new (cmds ! j) = failing evs (cmds ! j)" for j
      using C by (simp add: failing_snoc split: option.splits)
    have "first_failing cmds ?new = first_failing cmds evs" by (rule first_failing_cong) (rule f)
    moreover have "aggregate cmds ?new = aggregate cmds evs" by (rule aggregate_cong) (rule f)
    ultimately show ?thesis using idx code C by (simp add: hit_def)
  qed
  with left' show ?thesis by (simp add: recorded_def)
qed

lemma scan_watched:
  assumes "recorded cmds st evs" "int (length cmds) \<le> INT_MAX" "watched_ev cmds e"
  shows "\<exists>st'. recorded cmds st' (evs @ [e]) \<and>
           scan_watch_cmds cmds (w_pid e) (w_status e) 0 st =
             (if cmds_left st = 1 then Inl (error_code st') else Inr st')"
proof -
  from first_index [OF assms(3)] obtain k where k: "k < length cmds" "pid (cmds ! k) = w_pid e"
    "\<And>j. j < k \<Longrightarrow> pid (cmds ! j) \<noteq> w_pid e" by blast
  have "scan_watch_cmds cmds (w_pid e) (w_status e) 0 st =
      (if cmds_left st = 1 then Inl (error_code (hit k (w_status e) st)) else Inr (hit k (w_status e) st))"
    using k by (intro scan_hit) auto
  moreover have "recorded cmds (hit k (w_status e) st) (evs @ [e])"
    using assms(1) k assms(2) by (rule recorded_hit)
  ultimately show ?thesis by blast
qed

subsection \<open>Runs of the loop\<close>

lemma wait_loop_passes:
  assumes "passes pre w = Some w1" "recorded cmds st seen" "int (length cmds) \<le> INT_MAX"
    "incomplete cmds (seen @ pre)"
  shows "\<exists>st'. recorded cmds st' (seen @ pre) \<and>
           wait_loop cmds st (pre @ rest) w = wait_loop cmds st' rest w1"
  using assms
proof (induction pre arbitrary: st seen w)
  case Nil
  then show ?case by auto
next
  case (Cons e pre)
  from Cons.prems(1) obtain w2 where p: "pass e w = Some w2" "passes pre w2 = Some w1"
    by (auto split: option.splits)
  have cnt1: "reaped_count cmds (seen @ [e]) < length cmds" if "watched_ev cmds e"
    using Cons.prems(4) reaped_count_append [of cmds "seen @ [e]" pre] that
    by (auto simp: incomplete_def watched_ev_def)
  have "\<exists>st1. recorded cmds st1 (seen @ [e]) \<and>
      scan_watch_cmds cmds (w_pid e) (w_status e) 0 st = Inr st1"
  proof (cases "watched_ev cmds e")
    case True
    from scan_watched [OF Cons.prems(2,3) True]
    obtain st1 where st1: "recorded cmds st1 (seen @ [e])"
      "scan_watch_cmds cmds (w_pid e) (w_status e) 0 st =
         (if cmds_left st = 1 then Inl (error_code st1) else Inr st1)" by blast
    have "cmds_left st \<noteq> 1"
      using Cons.prems(2) cnt1 [OF True] True by (simp add: recorded_def reaped_count_snoc)
    with st1 show ?thesis by auto
  next
    case False
    with Cons.prems(2) show ?thesis
      by (auto simp: scan_unwatched intro: recorded_miss)
  qed
  then obtain st1 where st1: "recorded cmds st1 (seen @ [e])"
    "scan_watch_cmds cmds (w_pid e) (w_status e) 0 st = Inr st1" by blast
  have step: "wait_loop cmds st ((e # pre) @ rest) w = wait_loop cmds st1 (pre @ rest) w2"
    using wait_loop_pass [OF p(1), of cmds st "pre @ rest"] st1(2) by simp
  have inc: "incomplete cmds ((seen @ [e]) @ pre)" using Cons.prems(4) by simp
  from Cons.IH [OF p(2) st1(1) Cons.prems(3) inc]
  obtain st' where "recorded cmds st' ((seen @ [e]) @ pre)"
    "wait_loop cmds st1 (pre @ rest) w2 = wait_loop cmds st' rest w1" by blast
  with step show ?case by auto
qed

lemma loop_passes:
  assumes "passes pre w = Some w1" "int (length cmds) \<le> INT_MAX" "incomplete cmds pre"
  shows "\<exists>st'. recorded cmds st' pre \<and>
           wait_for_requested_commands_to_exit cmds (pre @ rest) w = wait_loop cmds st' rest w1"
  using wait_loop_passes [where seen = "[]", OF assms(1) recorded_init assms(2)] assms(3)
  by (simp add: wait_for_requested_commands_to_exit_def)

lemma loop_blocks:
  assumes "passes evs w = Some w1" "int (length cmds) \<le> INT_MAX" "incomplete cmds evs" "running w1"
  shows "wait_for_requested_commands_to_exit cmds evs w = Stop Blocked w1"
  using loop_passes [OF assms(1,2,3), of "[]"] assms(4) by auto

lemma loop_completes:
  assumes "passes (pre @ [e]) w = Some w'" "int (length cmds) \<le> INT_MAX"
    "watched_ev cmds e" "reaped_count cmds (pre @ [e]) = length cmds"
  shows "wait_for_requested_commands_to_exit cmds (pre @ e # rest) w =
           Ok (aggregate cmds (pre @ [e]), rest) w'"
proof -
  from assms(1) obtain w1 where p: "passes pre w = Some w1" "pass e w1 = Some w'"
    by (auto simp: passes_append split: option.splits)
  have cnt: "reaped_count cmds pre + 1 = length cmds"
    using assms(3,4) by (simp add: reaped_count_snoc)
  then have inc: "incomplete cmds pre" by (simp add: incomplete_def)
  from loop_passes [OF p(1) assms(2) inc, of "e # rest"]
  obtain st' where st': "recorded cmds st' pre"
    "wait_for_requested_commands_to_exit cmds (pre @ e # rest) w = wait_loop cmds st' (e # rest) w1"
    by blast
  from st'(1) cnt have left: "cmds_left st' = 1" by (simp add: recorded_def)
  from scan_watched [OF st'(1) assms(2,3)] left
  obtain st2 where st2: "recorded cmds st2 (pre @ [e])"
    "scan_watch_cmds cmds (w_pid e) (w_status e) 0 st' = Inl (error_code st2)" by auto
  have "wait_loop cmds st' (e # rest) w1 = Ok (error_code st2, rest) w'"
    using wait_loop_pass [OF p(2), of cmds st' rest] st2(2) by simp
  with st'(2) recorded_aggregate [OF st2(1)] show ?thesis by simp
qed

lemma loop_interrupted:
  assumes "passes pre w = Some w1" "int (length cmds) \<le> INT_MAX" "incomplete cmds pre"
  shows "stops_before e w1 w' \<Longrightarrow>
           wait_for_requested_commands_to_exit cmds (pre @ e # es) w =
             Ok (aggregate cmds pre, e\<lparr>sigs_before := []\<rparr> # es) w'"
    and "stops_after e w1 w' \<Longrightarrow>
           wait_for_requested_commands_to_exit cmds (pre @ e # es) w =
             Ok (aggregate cmds pre, es) w'"
proof -
  from loop_passes [OF assms, of "e # es"]
  obtain st' where st': "recorded cmds st' pre"
    "wait_for_requested_commands_to_exit cmds (pre @ e # es) w = wait_loop cmds st' (e # es) w1"
    by blast
  show "stops_before e w1 w' \<Longrightarrow>
           wait_for_requested_commands_to_exit cmds (pre @ e # es) w =
             Ok (aggregate cmds pre, e\<lparr>sigs_before := []\<rparr> # es) w'"
    using st' recorded_aggregate [OF st'(1)]
    by (simp add: wait_loop_stops_before del: wait_loop.simps)
  show "stops_after e w1 w' \<Longrightarrow>
           wait_for_requested_commands_to_exit cmds (pre @ e # es) w =
             Ok (aggregate cmds pre, es) w'"
    using st' recorded_aggregate [OF st'(1)]
    by (simp add: wait_loop_stops_after del: wait_loop.simps)
qed

lemma nth_watched:
  "0 < n \<Longrightarrow> n \<le> reaped_count cmds evs \<Longrightarrow>
     \<exists>k<length evs. watched_ev cmds (evs ! k) \<and> reaped_count cmds (take (Suc k) evs) = n"
proof (induction evs rule: rev_induct)
  case Nil
  then show ?case by (simp add: reaped_count_def)
next
  case (snoc x xs)
  show ?case
  proof (cases "n \<le> reaped_count cmds xs")
    case True
    with snoc obtain k where k: "k < length xs" "watched_ev cmds (xs ! k)"
      "reaped_count cmds (take (Suc k) xs) = n" by auto
    then show ?thesis
      by (intro exI [of _ k]) (simp add: nth_append)
  next
    case False
    with snoc.prems have "watched_ev cmds x" "reaped_count cmds (xs @ [x]) = n"
      by (auto simp: reaped_count_snoc split: if_splits)
    then show ?thesis
      by (intro exI [of _ "length xs"]) simp
  qed
qed

lemma completion_None:
  assumes "completion cmds evs = None"
  shows "incomplete cmds evs"
proof (rule ccontr)
  assume "\<not> incomplete cmds evs"
  then have "0 < length cmds" "length cmds \<le> reaped_count cmds evs"
    by (auto simp: incomplete_def)
  from nth_watched [OF this] obtain k where "k < length evs" "watched_ev cmds (evs ! k)"
    "reaped_count cmds (take (Suc k) evs) = length cmds" by blast
  with assms show False
    by (auto simp: completion_def find_None_iff)
qed

lemma completion_iff:
  "completion cmds evs = Some k \<longleftrightarrow>
     k < length evs \<and> watched_ev cmds (evs ! k) \<and>
     reaped_count cmds (take (Suc k) evs) = length cmds \<and>
     (\<forall>j<k. \<not> (watched_ev cmds (evs ! j) \<and> reaped_count cmds (take (Suc j) evs) = length cmds))"
  unfolding completion_def find_upt_Some by simp

lemma completion_prefix:
  assumes "completion cmds p = Some k"
  shows "completion cmds (p @ r) = Some k"
proof -
  from assms have k: "k < length p" by (simp add: completion_iff)
  have "(p @ r) ! j = p ! j" "take (Suc j) (p @ r) = take (Suc j) p" if "j \<le> k" for j
    using that k by (simp_all add: nth_append)
  with assms show ?thesis unfolding completion_iff
    by (metis k le_eq_less_or_eq length_append trans_less_add1)
qed

lemma completion_empty: "completion [] evs = None"
  by (simp add: completion_def find_None_iff watched_ev_def)

lemma loop_completion:
  assumes "int (length cmds) \<le> INT_MAX" "completion cmds evs = Some k"
    "passes (take (Suc k) evs) w = Some w'"
  shows "wait_for_requested_commands_to_exit cmds evs w =
    Ok (aggregate cmds (take (Suc k) evs), drop (Suc k) evs) w'"
proof -
  from assms(2) have k: "k < length evs" "watched_ev cmds (evs ! k)"
    "reaped_count cmds (take (Suc k) evs) = length cmds" by (simp_all add: completion_iff)
  have tk: "take (Suc k) evs = take k evs @ [evs ! k]" using k(1) by (rule take_Suc_conv_app_nth)
  have split: "evs = take k evs @ evs ! k # drop (Suc k) evs" using k(1) by (rule id_take_nth_drop)
  from loop_completes [of "take k evs" "evs ! k" w w' cmds "drop (Suc k) evs"] assms(1,3) k(2,3) tk
  have "wait_for_requested_commands_to_exit cmds (take k evs @ evs ! k # drop (Suc k) evs) w =
    Ok (aggregate cmds (take (Suc k) evs), drop (Suc k) evs) w'" by simp
  with split show ?thesis by simp
qed

lemma loop_cases:
  assumes "int (length cmds) \<le> INT_MAX"
  shows "case completion cmds (passing evs w) of
       Some k \<Rightarrow>
         completion cmds evs = Some k \<and> take (Suc k) evs = take (Suc k) (passing evs w) \<and>
         (\<exists>w'. passes (take (Suc k) evs) w = Some w' \<and> running w' \<and>
            wait_for_requested_commands_to_exit cmds evs w =
              Ok (aggregate cmds (take (Suc k) evs), drop (Suc k) evs) w')
     | None \<Rightarrow>
         (\<forall>c rest w'. wait_for_requested_commands_to_exit cmds evs w = Ok (c, rest) w' \<longrightarrow>
            c = aggregate cmds (passing evs w) \<and> \<not> running w')"
proof -
  define p where "p = passing evs w"
  from passing_split [of evs w] obtain r w1 where r: "evs = p @ r" "passes p w = Some w1"
    "case r of [] \<Rightarrow> True | e # es \<Rightarrow> pass e w1 = None" unfolding p_def by blast
  show ?thesis
  proof (cases "completion cmds p")
    case (Some k)
    then have k: "k < length p" by (simp add: completion_iff)
    from completion_prefix [OF Some, of r] r(1) have c: "completion cmds evs = Some k" by simp
    have t: "take (Suc k) evs = take (Suc k) p" using k r(1) by simp
    have "p = take (Suc k) p @ drop (Suc k) p" by simp
    with r(2) obtain w' where w': "passes (take (Suc k) p) w = Some w'"
      by (metis passes_append option.case_eq_if option.exhaust_sel option.distinct(1))
    have "take (Suc k) p \<noteq> []" using k by auto
    with w' have run: "running w'" by (rule passes_running)
    from loop_completion [OF assms c] w' t
    have "wait_for_requested_commands_to_exit cmds evs w =
              Ok (aggregate cmds (take (Suc k) evs), drop (Suc k) evs) w'" by simp
    with Some c t w' run show ?thesis unfolding p_def [symmetric] by simp
  next
    case None
    from completion_None [OF None] have inc: "incomplete cmds p" .
    from loop_passes [OF r(2) assms inc, of r] r(1)
    obtain st' where st': "recorded cmds st' p"
      "wait_for_requested_commands_to_exit cmds evs w = wait_loop cmds st' r w1" by auto
    have "c = aggregate cmds p \<and> \<not> running w'"
      if "wait_for_requested_commands_to_exit cmds evs w = Ok (c, rest) w'" for c rest w'
    proof (cases r)
      case Nil
      with that st' show ?thesis by (auto simp: recorded_aggregate split: if_splits)
    next
      case (Cons e es)
      with r(3) have "pass e w1 = None" by simp
      from wait_loop_no_pass [OF this, of cmds st' es c rest w'] that st' Cons
      show ?thesis by (simp add: recorded_aggregate)
    qed
    with None show ?thesis unfolding p_def [symmetric] by simp
  qed
qed

lemma loop_returns:
  assumes "int (length cmds) \<le> INT_MAX"
    "wait_for_requested_commands_to_exit cmds evs w = Ok (c, rest) w'"
  shows "c = aggregate cmds (recorded_exits cmds evs w)"
proof (cases "completion cmds (passing evs w)")
  case None
  with loop_cases [OF assms(1), of evs w] assms(2) show ?thesis
    by (simp add: recorded_exits_def)
next
  case (Some k)
  with loop_cases [OF assms(1), of evs w] assms(2) show ?thesis
    by (auto simp: recorded_exits_def)
qed

lemma loop_returns_running:
  assumes "int (length cmds) \<le> INT_MAX"
    "wait_for_requested_commands_to_exit cmds evs w = Ok (c, rest) w'" "running w'"
  shows "\<exists>k. completion cmds evs = Some k \<and> passes (take (Suc k) evs) w = Some w' \<and>
    rest = drop (Suc k) evs"
proof (cases "completion cmds (passing evs w)")
  case None
  with loop_cases [OF assms(1), of evs w] assms(2,3) show ?thesis by auto
next
  case (Some k)
  with loop_cases [OF assms(1), of evs w] assms(2) show ?thesis by auto
qed

lemma loop_returns_stopped:
  assumes "int (length cmds) \<le> INT_MAX"
    "wait_for_requested_commands_to_exit cmds evs w = Ok (c, rest) w'" "\<not> running w'"
  shows "completion cmds (passing evs w) = None"
proof (cases "completion cmds (passing evs w)")
  case None
  then show ?thesis .
next
  case (Some k)
  with loop_cases [OF assms(1), of evs w] assms(2,3) show ?thesis by auto
qed

lemma loop_stopped_code:
  assumes "int (length cmds) \<le> INT_MAX"
    "wait_for_requested_commands_to_exit cmds evs w = Ok (c, rest) w'" "\<not> running w'"
  shows "c = aggregate cmds (passing evs w)"
  using loop_cases [OF assms(1), of evs w] loop_returns_stopped [OF assms] assms(2) by simp

lemma watched_ev_status [simp]: "watched_ev cmds (e\<lparr>w_status := s\<rparr>) = watched_ev cmds e"
  by (simp add: watched_ev_def)

lemma reaped_count_status:
  "reaped_count cmds (map (\<lambda>e. e\<lparr>w_status := f e\<rparr>) evs) = reaped_count cmds evs"
  by (simp add: reaped_count_def filter_map o_def)

lemma completion_status:
  "completion cmds (map (\<lambda>e. e\<lparr>w_status := f e\<rparr>) evs) = completion cmds evs"
  unfolding completion_def
  by (rule find_cong) (simp_all add: take_map reaped_count_status)

subsection \<open>The examples\<close>

lemma example_facts:
  "running sys" "quiet (exit_ev p c)" "w_pid (exit_ev p c) = p" "pid (watched_cmd p) = p"
  "w_status (exit_ev p c) = c * 256" 
  by (simp_all add: sys_def start_def exit_ev_def quiet_def watched_cmd_def)

lemma status_2_3:
  "failure 512" "failure 768" "WEXITSTATUS 512 = 2" "WEXITSTATUS 768 = 3" "\<not> failure 0"
  by (simp_all add: failure_def WIFEXITED_def WEXITSTATUS_def)

lemma installed_facts:
  "handlers (installed w) SIGTERM = Handler_on_signal"
  "handlers (installed w) SIGINT = Handler_on_signal"
  "handlers (installed w) SIGALRM = Handler_on_alarm"
  "running (installed w) = running w" "log (installed w) = log w"
  "alarm_exit_code (installed w) = alarm_exit_code w"
  by (simp_all add: installed_def)

lemma returned_Some: "returned r = Some c \<Longrightarrow> \<exists>rest w'. r = Ok (c, rest) w'"
  by (cases r) (auto simp: returned_def)

lemma two_facts:
  "int (length two_cmds) \<le> INT_MAX" "incomplete two_cmds [exit_ev 11 3, exit_ev 99 0]"
  "aggregate two_cmds [exit_ev 11 3, exit_ev 99 0] = 3"
  "incomplete two_cmds [exit_ev 99 4]"
  "\<forall>x \<in> set [exit_ev 99 4]. watched_ev two_cmds x \<longrightarrow> \<not> failure (w_status x)"
  by code_simp+

lemma three_facts:
  "completion three_cmds three_exits = Some 2"
  "failing (take (Suc 2) three_exits) (three_cmds ! 0) = Some (exit_ev 20 2)"
  "take (Suc 2) three_exits = [exit_ev 22 4, exit_ev 21 3, exit_ev 20 2]"
  "drop (Suc 2) three_exits = [exit_ev 99 1]"
  "length three_cmds = 3" "three_cmds ! 0 = watched_cmd 20"
  by code_simp+

lemma four_facts:
  "completion two_cmds four_exits = Some 2"
  "take (Suc 2) four_exits = [exit_ev 10 1, exit_ev 99 0, exit_ev 11 0]"
  "drop (Suc 2) four_exits = [(exit_ev 98 0)\<lparr>sigs_before := [SIGTERM]\<rparr>]"
  "completion two_cmds [exit_ev 10 1, exit_ev 99 0] = None"
  "aggregate two_cmds [exit_ev 10 1, exit_ev 99 0, exit_ev 11 0] = 1"
  "completion two_cmds (passing [exit_ev 11 3, (exit_ev 10 2)\<lparr>sigs_during := [SIGTERM]\<rparr>] (installed sys)) = None"
  "returned (wait_for_requested_commands_to_exit two_cmds
      [exit_ev 11 3, (exit_ev 10 2)\<lparr>sigs_during := [SIGTERM]\<rparr>] (installed sys)) = Some 3"
  by code_simp+

lemma loop_eval:
  "wait_for_requested_commands_to_exit [watched_cmd 10, watched_cmd 11]
       [exit_ev 11 3, exit_ev 10 2] sys = Ok (2, []) (reaped [exit_ev 11 3, exit_ev 10 2] sys)"
proof -
  let ?cmds = "[watched_cmd 10, watched_cmd 11]"
  have p: "passes ([exit_ev 11 3] @ [exit_ev 10 2]) sys = Some (reaped ([exit_ev 11 3] @ [exit_ev 10 2]) sys)"
    by (rule quiet_passes) (simp_all add: example_facts)
  have "wait_for_requested_commands_to_exit ?cmds ([exit_ev 11 3] @ exit_ev 10 2 # []) sys =
      Ok (aggregate ?cmds ([exit_ev 11 3] @ [exit_ev 10 2]), []) (reaped ([exit_ev 11 3] @ [exit_ev 10 2]) sys)"
    using p by (rule loop_completes)
      (simp_all add: example_facts watched_ev_def INT_MAX_def reaped_count_def)
  moreover have "aggregate ?cmds [exit_ev 11 3, exit_ev 10 2] = 2" by code_simp
  ultimately show ?thesis by simp
qed

subsection \<open>The exit code of the loop\<close>

text \<open>
  Claim C1, as stated, fails.  The watched command of index 1 is reaped first, with
  status 3.  The watched command of index 0 exits with status 2 and is reaped by a call
  of \<^verbatim>\<open>waitpid\<close> during which \<^verbatim>\<open>SIGTERM\<close> arrives.  Line 68 returns before the scan of
  lines 71-93 has seen this exit, and the loop returns 3, while the command of lowest
  index that exited normally with a nonzero status has the status 2.  In the same way
  \<^verbatim>\<open>main\<close> returns 0 when its only command exits with status 2 in such a call.
\<close>

theorem interrupted_exit_dropped:
  "returned (wait_for_requested_commands_to_exit [watched_cmd 10, watched_cmd 11]
      [exit_ev 11 3, (exit_ev 10 2)\<lparr>sigs_during := [SIGTERM]\<rparr>] (installed sys)) = Some 3
   \<and> aggregate [watched_cmd 10, watched_cmd 11]
       [exit_ev 11 3, (exit_ev 10 2)\<lparr>sigs_during := [SIGTERM]\<rparr>] = 2
   \<and> fst (main argv3 [(exit_ev 10 2)\<lparr>sigs_during := [SIGTERM]\<rparr>, no_child] sys) = Return (Some 0)"
  by code_simp

text \<open>
  Claim C1, amended.  In every run in which the loop returns, the code it returns is the
  aggregate of the exits it has recorded (first part): the exits reaped by the calls
  after which \<^verbatim>\<open>running\<close> still held, up to the one that completes the count.  The
  aggregate of recorded exits \<open>S\<close> is the status of the first recorded failure of the
  command of lowest index that has one, wherever these exits stand in \<open>S\<close> (second
  part), and \<open>0\<close> when no watched command has a recorded failure (third part); when no
  watched pid is reaped twice it is the same for every order of the exits (fourth
  part).  The loop does return this code: with the exit that completes the count, when
  \<^verbatim>\<open>running\<close> held until then (fifth part), and at the check that finds \<^verbatim>\<open>running\<close>
  false (sixth part).
\<close>

theorem recorded_exit_code:
  "(int (length cmds) \<le> INT_MAX \<and>
      wait_for_requested_commands_to_exit cmds evs w = Ok (c, rest) w' \<longrightarrow>
      c = aggregate cmds (recorded_exits cmds evs w))
   \<and> (i < length cmds \<and> failing S (cmds ! i) = Some x \<and> (\<forall>j<i. failing S (cmds ! j) = None) \<longrightarrow>
        aggregate cmds S = WEXITSTATUS (w_status x))
   \<and> ((\<forall>x \<in> set S. watched_ev cmds x \<longrightarrow> \<not> failure (w_status x)) \<longrightarrow> aggregate cmds S = 0)
   \<and> (once_reaped cmds S \<and> mset S' = mset S \<longrightarrow> aggregate cmds S' = aggregate cmds S)
   \<and> (int (length cmds) \<le> INT_MAX \<and> completion cmds evs = Some k \<and>
        passes (take (Suc k) evs) w = Some v \<longrightarrow>
        wait_for_requested_commands_to_exit cmds evs w =
          Ok (aggregate cmds (take (Suc k) evs), drop (Suc k) evs) v \<and>
        recorded_exits cmds evs w = take (Suc k) evs)
   \<and> (int (length cmds) \<le> INT_MAX \<and> passes pre w = Some w1 \<and> incomplete cmds pre \<and>
        (stops_before e w1 v \<or> stops_after e w1 v) \<longrightarrow>
        returned (wait_for_requested_commands_to_exit cmds (pre @ e # es) w) =
          Some (aggregate cmds pre))"
proof (intro conjI impI)
  assume "int (length cmds) \<le> INT_MAX \<and>
      wait_for_requested_commands_to_exit cmds evs w = Ok (c, rest) w'"
  then show "c = aggregate cmds (recorded_exits cmds evs w)"
    using loop_returns by blast
next
  assume "i < length cmds \<and> failing S (cmds ! i) = Some x \<and> (\<forall>j<i. failing S (cmds ! j) = None)"
  then show "aggregate cmds S = WEXITSTATUS (w_status x)"
    using aggregate_first [of i cmds S x] by blast
next
  assume "\<forall>x \<in> set S. watched_ev cmds x \<longrightarrow> \<not> failure (w_status x)"
  then show "aggregate cmds S = 0" by (rule aggregate_zero)
next
  assume "once_reaped cmds S \<and> mset S' = mset S"
  then show "aggregate cmds S' = aggregate cmds S"
    using aggregate_mset by blast
next
  assume h: "int (length cmds) \<le> INT_MAX \<and> completion cmds evs = Some k \<and>
        passes (take (Suc k) evs) w = Some v"
  then have b: "int (length cmds) \<le> INT_MAX" and c: "completion cmds evs = Some k"
    and p: "passes (take (Suc k) evs) w = Some v" by simp_all
  from loop_completion [OF b c p]
  show r: "wait_for_requested_commands_to_exit cmds evs w =
          Ok (aggregate cmds (take (Suc k) evs), drop (Suc k) evs) v" .
  from c have "take (Suc k) evs \<noteq> []" by (auto simp: completion_iff)
  with p have "running v" by (rule passes_running)
  with loop_cases [OF b, of evs w] r c show "recorded_exits cmds evs w = take (Suc k) evs"
    by (cases "completion cmds (passing evs w)") (auto simp: recorded_exits_def)
next
  assume h: "int (length cmds) \<le> INT_MAX \<and> passes pre w = Some w1 \<and> incomplete cmds pre \<and>
        (stops_before e w1 v \<or> stops_after e w1 v)"
  then have p: "passes pre w = Some w1" "int (length cmds) \<le> INT_MAX" "incomplete cmds pre"
    by simp_all
  from h loop_interrupted [OF p, of e v es]
  show "returned (wait_for_requested_commands_to_exit cmds (pre @ e # es) w) =
          Some (aggregate cmds pre)"
    by (auto simp: returned_def)
qed

theorem recorded_exit_code_witness:
  "returned (wait_for_requested_commands_to_exit two_cmds
       [exit_ev 11 3, (exit_ev 10 2)\<lparr>sigs_during := [SIGTERM]\<rparr>] (installed sys)) =
     Some (aggregate two_cmds
       (recorded_exits two_cmds
          [exit_ev 11 3, (exit_ev 10 2)\<lparr>sigs_during := [SIGTERM]\<rparr>] (installed sys)))
   \<and> recorded_exits two_cmds
          [exit_ev 11 3, (exit_ev 10 2)\<lparr>sigs_during := [SIGTERM]\<rparr>] (installed sys) = [exit_ev 11 3]
   \<and> returned (wait_for_requested_commands_to_exit two_cmds
       [exit_ev 11 3, (exit_ev 10 2)\<lparr>sigs_during := [SIGTERM]\<rparr>] (installed sys)) = Some 3
   \<and> aggregate two_cmds [exit_ev 11 3, exit_ev 10 2] = 2
   \<and> aggregate two_cmds [exit_ev 10 0, exit_ev 99 5] = 0
   \<and> aggregate two_cmds [exit_ev 10 2, exit_ev 11 3] = aggregate two_cmds [exit_ev 11 3, exit_ev 10 2]
   \<and> wait_for_requested_commands_to_exit two_cmds [exit_ev 11 3, exit_ev 10 2, exit_ev 99 1] sys =
       Ok (2, [exit_ev 99 1]) (reaped [exit_ev 11 3, exit_ev 10 2] sys)"
proof -
  let ?evs = "[exit_ev 11 3, (exit_ev 10 2)\<lparr>sigs_during := [SIGTERM]\<rparr>]"
  let ?S = "[exit_ev 11 3, exit_ev 10 2]"
  let ?T = "[exit_ev 11 3, exit_ev 10 2, exit_ev 99 1]"
  let ?e = "(exit_ev 10 2)\<lparr>sigs_during := [SIGTERM]\<rparr>"
  let ?u = "reaped [exit_ev 11 3] (installed sys)"
  let ?v = "on_signal (emit (reap_action (exit_ev 10 2)) ?u)"
  note b = two_facts(1)
  have ev: "returned (wait_for_requested_commands_to_exit two_cmds ?evs (installed sys)) = Some 3"
    "recorded_exits two_cmds ?evs (installed sys) = [exit_ev 11 3]"
    "aggregate two_cmds [exit_ev 11 3] = 3"
    "completion two_cmds ?T = Some 1" "take (Suc 1) ?T = ?S" "drop (Suc 1) ?T = [exit_ev 99 1]"
    "incomplete two_cmds [exit_ev 11 3]"
    by code_simp+
  from ev(1) obtain rest w' where
    ok: "wait_for_requested_commands_to_exit two_cmds ?evs (installed sys) = Ok (3, rest) w'"
    using returned_Some by blast
  have f: "0 < length two_cmds \<and> failing ?S (two_cmds ! 0) = Some (exit_ev 10 2) \<and>
      (\<forall>j<0. failing ?S (two_cmds ! j) = None)"
    by (simp add: failing_def example_facts status_2_3 two_cmds_def)
  have z: "\<forall>x \<in> set [exit_ev 10 0, exit_ev 99 5]. watched_ev two_cmds x \<longrightarrow> \<not> failure (w_status x)"
    by (simp add: watched_ev_def example_facts status_2_3 two_cmds_def)
  have m: "once_reaped two_cmds ?S \<and> mset [exit_ev 10 2, exit_ev 11 3] = mset ?S"
    by (simp add: once_reaped_def watched_ev_def example_facts two_cmds_def)
  have w2: "WEXITSTATUS (w_status (exit_ev 10 2)) = 2" by (simp add: example_facts status_2_3)
  have p: "passes (take (Suc 1) ?T) sys = Some (reaped ?S sys)"
    unfolding ev(5) by (rule quiet_passes) (simp_all add: example_facts)
  have pu: "passes [exit_ev 11 3] (installed sys) = Some ?u"
    by (rule quiet_passes) (simp_all add: example_facts installed_facts)
  have a: "stops_before ?e ?u ?v \<or> stops_after ?e ?u ?v"
    by (simp add: stops_after_def waitpid_def deliver_def installed_facts emit_def on_signal_def
        exit_ev_def reap_action_def sys_def start_def installed_def reaped_def)
  from recorded_exit_code [where cmds = two_cmds and evs = ?evs and w = "installed sys" and c = 3
      and rest = rest and w' = w' and i = 0 and S = ?S and x = "exit_ev 10 2"
      and S' = "[exit_ev 10 2, exit_ev 11 3]"] b ok f m
  have "3 = aggregate two_cmds (recorded_exits two_cmds ?evs (installed sys))"
    "aggregate two_cmds ?S = WEXITSTATUS (w_status (exit_ev 10 2))"
    "aggregate two_cmds [exit_ev 10 2, exit_ev 11 3] = aggregate two_cmds ?S"
    by blast+
  moreover from recorded_exit_code [where cmds = two_cmds and S = "[exit_ev 10 0, exit_ev 99 5]"] z
  have "aggregate two_cmds [exit_ev 10 0, exit_ev 99 5] = 0" by blast
  moreover from recorded_exit_code [where cmds = two_cmds and evs = ?T and w = sys and k = 1
      and v = "reaped ?S sys"] b ev(4) p
  have "wait_for_requested_commands_to_exit two_cmds ?T sys =
      Ok (aggregate two_cmds (take (Suc 1) ?T), drop (Suc 1) ?T) (reaped ?S sys)" by blast
  moreover from recorded_exit_code [where cmds = two_cmds and w = "installed sys"
      and pre = "[exit_ev 11 3]" and ?w1.0 = ?u and e = ?e and v = ?v and es = "[]"] b pu ev(7) a
  have "returned (wait_for_requested_commands_to_exit two_cmds ([exit_ev 11 3] @ ?e # []) (installed sys)) =
      Some (aggregate two_cmds [exit_ev 11 3])" by blast
  ultimately show ?thesis using ev(1,2,3) w2 unfolding ev(5,6) by simp
qed

subsection \<open>Which exit overrides the recorded code\<close>

text \<open>
  Claim C2, as stated, fails.  The watched command of index 1 reports the status 3
  first, the watched command of index 0 reports the status 2 afterwards, and the loop
  returns 2: the code is not the status of the first command to report.
\<close>

theorem first_reported_counterexample:
  "\<not> (\<exists>rest w'. wait_for_requested_commands_to_exit [watched_cmd 10, watched_cmd 11]
          [exit_ev 11 3, exit_ev 10 2] sys = Ok (WEXITSTATUS (w_status (exit_ev 11 3)), rest) w')"
  by (simp add: loop_eval example_facts status_2_3)

text \<open>
  Claim C2, amended.  The watched command of lowest index among those that report a
  nonzero normal exit determines the recorded code.  First part, lines 71-93, for every
  loop state: when the reaped pid is found at index \<open>k\<close>, the scan replaces the recorded
  code exactly when the exit is a failure and \<open>k\<close> is below the recorded index, also at
  the last watched exit, where the code is returned at once.  Second part, for any
  number of watched commands: when the loop returns with the exit that completes the
  count, it returns the status \<open>x\<close> reports for the command of lowest index with a
  recorded failure, whether \<open>x\<close> was reaped before or after the failures of the
  commands of higher index.
\<close>

theorem lower_index_overrides:
  "(k < length cmds \<and> pid (cmds ! k) = p \<and> (\<forall>j<k. pid (cmds ! j) \<noteq> p) \<longrightarrow>
      (\<exists>st'. scan_watch_cmds cmds p s 0 st =
                (if cmds_left st = 1 then Inl (error_code st') else Inr st') \<and>
         error_code st' =
           (if failure s \<and> int k < error_code_idx st then WEXITSTATUS s else error_code st) \<and>
         error_code_idx st' =
           (if failure s \<and> int k < error_code_idx st then int k else error_code_idx st) \<and>
         cmds_left st' = cmds_left st - 1))
   \<and> (int (length cmds) \<le> INT_MAX \<and> completion cmds evs = Some n \<and>
      passes (take (Suc n) evs) w = Some w' \<and>
      i < length cmds \<and> failing (take (Suc n) evs) (cmds ! i) = Some x \<and>
      (\<forall>j<i. failing (take (Suc n) evs) (cmds ! j) = None) \<longrightarrow>
      wait_for_requested_commands_to_exit cmds evs w =
        Ok (WEXITSTATUS (w_status x), drop (Suc n) evs) w')"
proof (intro conjI impI)
  assume h: "k < length cmds \<and> pid (cmds ! k) = p \<and> (\<forall>j<k. pid (cmds ! j) \<noteq> p)"
  then have "scan_watch_cmds cmds p s 0 st =
      (if cmds_left st = 1 then Inl (error_code (hit k s st)) else Inr (hit k s st))"
    by (intro scan_hit) auto
  then show "\<exists>st'. scan_watch_cmds cmds p s 0 st =
                (if cmds_left st = 1 then Inl (error_code st') else Inr st') \<and>
         error_code st' =
           (if failure s \<and> int k < error_code_idx st then WEXITSTATUS s else error_code st) \<and>
         error_code_idx st' =
           (if failure s \<and> int k < error_code_idx st then int k else error_code_idx st) \<and>
         cmds_left st' = cmds_left st - 1"
    by (intro exI [of _ "hit k s st"]) (simp add: hit_def)
next
  assume h: "int (length cmds) \<le> INT_MAX \<and> completion cmds evs = Some n \<and>
      passes (take (Suc n) evs) w = Some w' \<and>
      i < length cmds \<and> failing (take (Suc n) evs) (cmds ! i) = Some x \<and>
      (\<forall>j<i. failing (take (Suc n) evs) (cmds ! j) = None)"
  then have "wait_for_requested_commands_to_exit cmds evs w =
      Ok (aggregate cmds (take (Suc n) evs), drop (Suc n) evs) w'"
    by (intro loop_completion) simp_all
  moreover from h have "aggregate cmds (take (Suc n) evs) = WEXITSTATUS (w_status x)"
    using aggregate_first [of i cmds "take (Suc n) evs" x] by blast
  ultimately show "wait_for_requested_commands_to_exit cmds evs w =
        Ok (WEXITSTATUS (w_status x), drop (Suc n) evs) w'" by simp
qed

theorem lower_index_overrides_witness:
  "wait_for_requested_commands_to_exit three_cmds three_exits sys =
     Ok (2, [exit_ev 99 1]) (reaped [exit_ev 22 4, exit_ev 21 3, exit_ev 20 2] sys)
   \<and> (\<exists>st' :: loop_state. scan_watch_cmds three_cmds 20 512 0
               \<lparr>cmds_left = 1, error_code = 3, error_code_idx = 1\<rparr> = Inl (error_code st') \<and>
             error_code st' = 2 \<and> error_code_idx st' = 0 \<and> cmds_left st' = 0)"
proof -
  have p: "passes (take (Suc 2) three_exits) sys =
      Some (reaped [exit_ev 22 4, exit_ev 21 3, exit_ev 20 2] sys)"
    unfolding three_facts by (rule quiet_passes) (simp_all add: example_facts)
  have h1: "0 < length three_cmds \<and> pid (three_cmds ! 0) = 20 \<and> (\<forall>j<0. pid (three_cmds ! j) \<noteq> 20)"
    by (simp add: three_facts example_facts)
  have h2: "int (length three_cmds) \<le> INT_MAX \<and> 0 < length three_cmds \<and>
      (\<forall>j<0. failing (take (Suc 2) three_exits) (three_cmds ! j) = None)"
    by (simp add: three_facts INT_MAX_def)
  from lower_index_overrides [of 0 three_cmds 20 512
      "\<lparr>cmds_left = 1, error_code = 3, error_code_idx = 1\<rparr>" three_exits 2 sys
      "reaped [exit_ev 22 4, exit_ev 21 3, exit_ev 20 2] sys" 0 "exit_ev 20 2"]
    h1 h2 p three_facts(1,2)
  have "\<exists>st' :: loop_state. scan_watch_cmds three_cmds 20 512 0
               \<lparr>cmds_left = 1, error_code = 3, error_code_idx = 1\<rparr> =
                (if cmds_left \<lparr>cmds_left = 1, error_code = 3, error_code_idx = 1\<rparr> = 1
                 then Inl (error_code st') else Inr st') \<and>
         error_code st' =
           (if failure 512 \<and> int 0 < error_code_idx \<lparr>cmds_left = 1, error_code = 3, error_code_idx = 1\<rparr>
            then WEXITSTATUS 512 else error_code \<lparr>cmds_left = 1, error_code = 3, error_code_idx = 1\<rparr>) \<and>
         error_code_idx st' =
           (if failure 512 \<and> int 0 < error_code_idx \<lparr>cmds_left = 1, error_code = 3, error_code_idx = 1\<rparr>
            then int 0 else error_code_idx \<lparr>cmds_left = 1, error_code = 3, error_code_idx = 1\<rparr>) \<and>
         cmds_left st' = cmds_left \<lparr>cmds_left = 1, error_code = 3, error_code_idx = 1\<rparr> - 1"
    "wait_for_requested_commands_to_exit three_cmds three_exits sys =
        Ok (WEXITSTATUS (w_status (exit_ev 20 2)), drop (Suc 2) three_exits)
          (reaped [exit_ev 22 4, exit_ev 21 3, exit_ev 20 2] sys)"
    by blast+
  then have "\<exists>st' :: loop_state. scan_watch_cmds three_cmds 20 512 0
               \<lparr>cmds_left = 1, error_code = 3, error_code_idx = 1\<rparr> = Inl (error_code st') \<and>
             error_code st' = 2 \<and> error_code_idx st' = 0 \<and> cmds_left st' = 0"
    "wait_for_requested_commands_to_exit three_cmds three_exits sys =
        Ok (2, [exit_ev 99 1]) (reaped [exit_ev 22 4, exit_ev 21 3, exit_ev 20 2] sys)"
    unfolding three_facts(4) by (simp_all add: example_facts status_2_3)
  then show ?thesis by blast
qed

subsection \<open>When the loop returns\<close>

text \<open>
  Claim C7, as stated, fails.  With no watched command the count of reaped exits of
  watched commands equals the size of the watch set from the start, and the loop does
  not return: it consumes every answer of \<^verbatim>\<open>waitpid\<close> and calls again, and \<^verbatim>\<open>main\<close>
  with one configuring command never ends.  And the loop returns before the count is
  reached when a signal has cleared \<^verbatim>\<open>running\<close>.
\<close>

theorem count_reached_no_return:
  "returned (wait_for_requested_commands_to_exit [] [no_child, no_child, no_child] sys) = None
   \<and> reaped_count [] [] = length ([] :: Cmd list)
   \<and> fst (main [''sb'', ''-c'', ''cfg''] [exit_ev 10 0, no_child, no_child, no_child] sys) = Blocked
   \<and> returned (wait_for_requested_commands_to_exit [watched_cmd 10]
        [(exit_ev 99 0)\<lparr>sigs_before := [SIGTERM]\<rparr>] (installed sys)) = Some 0
   \<and> reaped_count [watched_cmd 10] [] < length [watched_cmd 10]"
  by code_simp

text \<open>
  Claim C7, amended.  While \<^verbatim>\<open>running\<close> holds at its checks, the loop returns exactly
  with the reaped exit of a watched pid that brings the number of such exits to the
  number of watched commands: it returns there, with the events that follow left
  unconsumed and no further call made (first part); it is still waiting when no event
  does so (second part); and a return after which \<^verbatim>\<open>running\<close> holds is such a return
  (third part).  Every other return is at a check that finds \<^verbatim>\<open>running\<close> false, before
  the count is reached (fourth part).  With no watched command no event completes the
  count, and the event that does so does not depend on the exit statuses.
\<close>

theorem watched_exits_end_loop:
  "(int (length cmds) \<le> INT_MAX \<longrightarrow>
      (completion cmds evs = Some k \<and> passes (take (Suc k) evs) w = Some w' \<longrightarrow>
         wait_for_requested_commands_to_exit cmds evs w =
           Ok (aggregate cmds (take (Suc k) evs), drop (Suc k) evs) w' \<and>
         log w' = log w @ map reap_action (take (Suc k) evs)) \<and>
      (completion cmds evs = None \<and> passes evs w = Some w1 \<and> running w1 \<longrightarrow>
         wait_for_requested_commands_to_exit cmds evs w = Stop Blocked w1) \<and>
      (wait_for_requested_commands_to_exit cmds evs w = Ok (c, rest) v \<and> running v \<longrightarrow>
         (\<exists>n. completion cmds evs = Some n \<and> passes (take (Suc n) evs) w = Some v \<and>
            rest = drop (Suc n) evs)) \<and>
      (wait_for_requested_commands_to_exit cmds evs w = Ok (c, rest) v \<and> \<not> running v \<longrightarrow>
         completion cmds (passing evs w) = None))
   \<and> completion [] evs = None
   \<and> completion cmds (map (\<lambda>e. e\<lparr>w_status := f e\<rparr>) evs) = completion cmds evs"
proof (intro conjI impI)
  assume b: "int (length cmds) \<le> INT_MAX"
    and h: "completion cmds evs = Some k \<and> passes (take (Suc k) evs) w = Some w'"
  from h have c: "completion cmds evs = Some k" and p: "passes (take (Suc k) evs) w = Some w'"
    by simp_all
  from loop_completion [OF b c p]
  show "wait_for_requested_commands_to_exit cmds evs w =
           Ok (aggregate cmds (take (Suc k) evs), drop (Suc k) evs) w'" .
  from passes_log [OF p] show "log w' = log w @ map reap_action (take (Suc k) evs)" .
next
  assume b: "int (length cmds) \<le> INT_MAX"
    and h: "completion cmds evs = None \<and> passes evs w = Some w1 \<and> running w1"
  from h completion_None [of cmds evs] have "incomplete cmds evs" by simp
  with loop_blocks [of evs w w1 cmds] b h
  show "wait_for_requested_commands_to_exit cmds evs w = Stop Blocked w1" by simp
next
  assume b: "int (length cmds) \<le> INT_MAX"
    and h: "wait_for_requested_commands_to_exit cmds evs w = Ok (c, rest) v \<and> running v"
  then show "\<exists>n. completion cmds evs = Some n \<and> passes (take (Suc n) evs) w = Some v \<and>
            rest = drop (Suc n) evs"
    using loop_returns_running [of cmds evs w c rest v] by blast
next
  assume b: "int (length cmds) \<le> INT_MAX"
    and h: "wait_for_requested_commands_to_exit cmds evs w = Ok (c, rest) v \<and> \<not> running v"
  then show "completion cmds (passing evs w) = None"
    using loop_returns_stopped [of cmds evs w c rest v] by blast
next
  show "completion [] evs = None" by (rule completion_empty)
  show "completion cmds (map (\<lambda>e. e\<lparr>w_status := f e\<rparr>) evs) = completion cmds evs"
    by (rule completion_status)
qed

theorem watched_exits_end_loop_witness:
  "wait_for_requested_commands_to_exit two_cmds four_exits sys =
     Ok (1, [(exit_ev 98 0)\<lparr>sigs_before := [SIGTERM]\<rparr>])
       (reaped [exit_ev 10 1, exit_ev 99 0, exit_ev 11 0] sys)
   \<and> wait_for_requested_commands_to_exit two_cmds [exit_ev 10 1, exit_ev 99 0] sys =
       Stop Blocked (reaped [exit_ev 10 1, exit_ev 99 0] sys)
   \<and> (\<exists>n. completion two_cmds four_exits = Some n \<and>
        passes (take (Suc n) four_exits) sys =
          Some (reaped [exit_ev 10 1, exit_ev 99 0, exit_ev 11 0] sys))
   \<and> completion two_cmds
        (passing [exit_ev 11 3, (exit_ev 10 2)\<lparr>sigs_during := [SIGTERM]\<rparr>] (installed sys)) = None"
proof -
  let ?u = "reaped [exit_ev 11 3] (installed sys)"
  let ?v = "on_signal (emit (reap_action (exit_ev 10 2)) ?u)"
  let ?e = "(exit_ev 10 2)\<lparr>sigs_during := [SIGTERM]\<rparr>"
  have pv: "passes [exit_ev 11 3] (installed sys) = Some ?u"
    by (rule quiet_passes) (simp_all add: example_facts installed_facts)
  have a: "stops_after ?e ?u ?v"
    by (simp add: stops_after_def waitpid_def deliver_def installed_facts emit_def on_signal_def
        exit_ev_def reap_action_def sys_def start_def installed_def reaped_def)
  have inc: "incomplete two_cmds [exit_ev 11 3]" by code_simp
  from loop_interrupted(2) [OF pv two_facts(1) inc a, of "[]"]
  have r4: "wait_for_requested_commands_to_exit two_cmds [exit_ev 11 3, ?e] (installed sys) =
      Ok (aggregate two_cmds [exit_ev 11 3], []) ?v" by simp
  have nr: "\<not> running ?v" by (simp add: on_signal_def)
  let ?w' = "reaped [exit_ev 10 1, exit_ev 99 0, exit_ev 11 0] sys"
  let ?w1 = "reaped [exit_ev 10 1, exit_ev 99 0] sys"
  have p: "passes (take (Suc 2) four_exits) sys = Some ?w'"
    unfolding four_facts by (rule quiet_passes) (simp_all add: example_facts)
  have p1: "passes [exit_ev 10 1, exit_ev 99 0] sys = Some ?w1"
    by (rule quiet_passes) (simp_all add: example_facts)
  have run: "running ?w1" "running ?w'" by (simp_all add: example_facts)
  from watched_exits_end_loop [of two_cmds four_exits 2 sys ?w'] two_facts(1) four_facts(1) p
  have r1: "wait_for_requested_commands_to_exit two_cmds four_exits sys =
           Ok (aggregate two_cmds (take (Suc 2) four_exits), drop (Suc 2) four_exits) ?w'"
    by blast
  from watched_exits_end_loop [of two_cmds "[exit_ev 10 1, exit_ev 99 0]" _ sys _ ?w1]
    two_facts(1) four_facts(4) p1 run(1)
  have r2: "wait_for_requested_commands_to_exit two_cmds [exit_ev 10 1, exit_ev 99 0] sys =
      Stop Blocked ?w1" by blast
  from watched_exits_end_loop [of two_cmds four_exits _ sys _ _
      "aggregate two_cmds (take (Suc 2) four_exits)" "drop (Suc 2) four_exits" ?w']
    two_facts(1) r1 run(2)
  have r3: "\<exists>n. completion two_cmds four_exits = Some n \<and>
      passes (take (Suc n) four_exits) sys = Some ?w' \<and>
      drop (Suc 2) four_exits = drop (Suc n) four_exits" by blast
  from watched_exits_end_loop [of two_cmds "[exit_ev 11 3, ?e]" _ "installed sys" _ _
      "aggregate two_cmds [exit_ev 11 3]" "[]" ?v] two_facts(1) r4 nr
  have r5: "completion two_cmds (passing [exit_ev 11 3, ?e] (installed sys)) = None" by blast
  from r1 r2 r3 r5 show ?thesis unfolding four_facts by auto
qed

subsection \<open>The checks of the flag\<close>

text \<open>
  Claim C5.  The loop reads \<^verbatim>\<open>running\<close> before and after every call of
  \<^verbatim>\<open>waitpid\<close>.  Whatever the loop state \<open>st\<close>: when the flag is false at line 58
  the loop returns the recorded code \<open>error_code st\<close> without making the call (the log
  is unchanged and the event is left, its signals consumed); when the flag is true at
  line 58 and false at line 68 it returns \<open>error_code st\<close> after that one call, whose
  result it drops, and leaves the later events.  In every round of a run, after the
  calls \<open>pre\<close> that the loop has gone on from: the code returned at either check is the
  aggregate of the exits \<open>pre\<close>, the calls made are those of \<open>pre\<close> and, at line 68,
  the one more; and this code is \<open>0\<close> when no exit of a watched pid in \<open>pre\<close> is a
  normal exit with a nonzero status.  Every return of the loop after which \<^verbatim>\<open>running\<close>
  is false gives the aggregate of the exits of the calls it had gone on from.
\<close>

theorem running_checked_around_wait:
  "(stops_before e w w' \<longrightarrow>
      wait_loop cmds st (e # es) w = Ok (error_code st, e\<lparr>sigs_before := []\<rparr> # es) w' \<and>
      log w' = log w \<and>
      wait_for_requested_commands_to_exit cmds (e # es) w = Ok (0, e\<lparr>sigs_before := []\<rparr> # es) w')
   \<and> (stops_after e w w' \<longrightarrow>
      wait_loop cmds st (e # es) w = Ok (error_code st, es) w' \<and>
      log w' = log w @ [reap_action e] \<and>
      wait_for_requested_commands_to_exit cmds (e # es) w = Ok (0, es) w')
   \<and> (\<not> running w \<longrightarrow> wait_loop cmds st [] w = Ok (error_code st, []) w)
   \<and> (int (length cmds) \<le> INT_MAX \<and> passes pre v = Some v1 \<and> incomplete cmds pre \<longrightarrow>
        (stops_before e v1 v' \<longrightarrow>
           wait_for_requested_commands_to_exit cmds (pre @ e # es) v =
             Ok (aggregate cmds pre, e\<lparr>sigs_before := []\<rparr> # es) v' \<and>
           log v' = log v @ map reap_action pre) \<and>
        (stops_after e v1 v' \<longrightarrow>
           wait_for_requested_commands_to_exit cmds (pre @ e # es) v =
             Ok (aggregate cmds pre, es) v' \<and>
           log v' = log v @ map reap_action pre @ [reap_action e]))
   \<and> ((\<forall>x \<in> set pre. watched_ev cmds x \<longrightarrow> \<not> failure (w_status x)) \<longrightarrow> aggregate cmds pre = 0)
   \<and> (int (length cmds) \<le> INT_MAX \<and>
        wait_for_requested_commands_to_exit cmds evs v = Ok (c, rest) u \<and> \<not> running u \<longrightarrow>
        c = aggregate cmds (passing evs v))"
proof (intro conjI impI)
  assume b: "stops_before e w w'"
  then show "wait_loop cmds st (e # es) w = Ok (error_code st, e\<lparr>sigs_before := []\<rparr> # es) w'"
    by (rule wait_loop_stops_before)
  from b show "log w' = log w" by (auto simp: stops_before_def dest: log_deliver_all)
  from b show "wait_for_requested_commands_to_exit cmds (e # es) w =
      Ok (0, e\<lparr>sigs_before := []\<rparr> # es) w'"
    by (simp add: wait_for_requested_commands_to_exit_def wait_loop_stops_before del: wait_loop.simps)
next
  assume a: "stops_after e w w'"
  then show "wait_loop cmds st (e # es) w = Ok (error_code st, es) w'"
    by (rule wait_loop_stops_after)
  from a show "log w' = log w @ [reap_action e]"
    by (auto simp: stops_after_def dest!: log_deliver_all log_waitpid)
  from a show "wait_for_requested_commands_to_exit cmds (e # es) w = Ok (0, es) w'"
    by (simp add: wait_for_requested_commands_to_exit_def wait_loop_stops_after del: wait_loop.simps)
next
  assume "\<not> running w"
  then show "wait_loop cmds st [] w = Ok (error_code st, []) w" by simp
next
  assume h: "int (length cmds) \<le> INT_MAX \<and> passes pre v = Some v1 \<and> incomplete cmds pre"
    and b: "stops_before e v1 v'"
  from h have p: "passes pre v = Some v1" "int (length cmds) \<le> INT_MAX" "incomplete cmds pre"
    by simp_all
  from loop_interrupted(1) [OF p b]
  show "wait_for_requested_commands_to_exit cmds (pre @ e # es) v =
      Ok (aggregate cmds pre, e\<lparr>sigs_before := []\<rparr> # es) v'" .
  from b have "log v' = log v1" by (auto simp: stops_before_def dest: log_deliver_all)
  with passes_log [OF p(1)] show "log v' = log v @ map reap_action pre" by simp
next
  assume h: "int (length cmds) \<le> INT_MAX \<and> passes pre v = Some v1 \<and> incomplete cmds pre"
    and a: "stops_after e v1 v'"
  from h have p: "passes pre v = Some v1" "int (length cmds) \<le> INT_MAX" "incomplete cmds pre"
    by simp_all
  from loop_interrupted(2) [OF p a]
  show "wait_for_requested_commands_to_exit cmds (pre @ e # es) v = Ok (aggregate cmds pre, es) v'" .
  from a have "log v' = log v1 @ [reap_action e]"
    by (auto simp: stops_after_def dest!: log_deliver_all log_waitpid)
  with passes_log [OF p(1)] show "log v' = log v @ map reap_action pre @ [reap_action e]" by simp
next
  assume "\<forall>x \<in> set pre. watched_ev cmds x \<longrightarrow> \<not> failure (w_status x)"
  then show "aggregate cmds pre = 0" by (rule aggregate_zero)
next
  assume "int (length cmds) \<le> INT_MAX \<and>
        wait_for_requested_commands_to_exit cmds evs v = Ok (c, rest) u \<and> \<not> running u"
  then show "c = aggregate cmds (passing evs v)"
    using loop_stopped_code [of cmds evs v c rest u] by blast
qed

theorem running_checked_around_wait_witness:
  "wait_for_requested_commands_to_exit two_cmds
     [exit_ev 11 3, exit_ev 99 0, (exit_ev 10 2)\<lparr>sigs_during := [SIGTERM]\<rparr>, no_child] (installed sys) =
     Ok (3, [no_child])
       (on_signal (emit (reap_action (exit_ev 10 2)) (reaped [exit_ev 11 3, exit_ev 99 0] (installed sys))))
   \<and> wait_for_requested_commands_to_exit two_cmds
       [exit_ev 99 4, (exit_ev 10 3)\<lparr>sigs_before := [SIGINT]\<rparr>, no_child] (installed sys) =
     Ok (0, [exit_ev 10 3, no_child]) (on_signal (reaped [exit_ev 99 4] (installed sys)))
   \<and> log (on_signal (reaped [exit_ev 99 4] (installed sys))) = [reap_action (exit_ev 99 4)]
   \<and> wait_loop two_cmds \<lparr>cmds_left = 1, error_code = 7, error_code_idx = 1\<rparr>
       [(exit_ev 10 3)\<lparr>sigs_before := [SIGINT]\<rparr>, no_child] (installed sys) =
     Ok (7, [exit_ev 10 3, no_child]) (on_signal (installed sys))
   \<and> wait_loop two_cmds \<lparr>cmds_left = 1, error_code = 7, error_code_idx = 1\<rparr>
       [(exit_ev 10 2)\<lparr>sigs_during := [SIGTERM]\<rparr>, no_child]
       (reaped [exit_ev 11 3, exit_ev 99 0] (installed sys)) =
     Ok (7, [no_child])
       (on_signal (emit (reap_action (exit_ev 10 2)) (reaped [exit_ev 11 3, exit_ev 99 0] (installed sys))))
   \<and> wait_loop two_cmds \<lparr>cmds_left = 1, error_code = 7, error_code_idx = 1\<rparr> []
       (on_signal (installed sys)) = Ok (7, []) (on_signal (installed sys))
   \<and> aggregate two_cmds
        (passing [exit_ev 11 3, exit_ev 99 0, (exit_ev 10 2)\<lparr>sigs_during := [SIGTERM]\<rparr>, no_child]
           (installed sys)) = 3"
proof -
  let ?w = "installed sys"
  let ?pre = "[exit_ev 11 3, exit_ev 99 0]"
  let ?e = "(exit_ev 10 2)\<lparr>sigs_during := [SIGTERM]\<rparr>"
  let ?w1 = "reaped ?pre ?w"
  let ?w' = "on_signal (emit (reap_action (exit_ev 10 2)) ?w1)"
  have run: "running ?w" by (simp add: installed_facts example_facts)
  have p1: "passes ?pre ?w = Some ?w1"
    by (rule quiet_passes) (simp_all add: example_facts run)
  have a: "stops_after ?e ?w1 ?w'"
    by (simp add: stops_after_def waitpid_def deliver_def installed_facts emit_def on_signal_def
        exit_ev_def reap_action_def sys_def start_def installed_def reaped_def)
  let ?pre2 = "[exit_ev 99 4]"
  let ?w2 = "reaped ?pre2 ?w"
  let ?e2 = "(exit_ev 10 3)\<lparr>sigs_before := [SIGINT]\<rparr>"
  have p2: "passes ?pre2 ?w = Some ?w2"
    by (rule quiet_passes) (simp_all add: example_facts run)
  have b: "stops_before ?e2 ?w2 (on_signal ?w2)"
    by (simp add: stops_before_def deliver_def installed_facts on_signal_def reaped_def)
  have b0: "stops_before ?e2 ?w (on_signal ?w)"
    by (simp add: stops_before_def deliver_def installed_facts on_signal_def)
  have c: "?e2\<lparr>sigs_before := []\<rparr> = exit_ev 10 3" by (simp add: exit_ev_def)
  have l: "log ?w = []" by (simp add: installed_facts sys_def start_def)
  from running_checked_around_wait [of ?e2 ?w "on_signal ?w" two_cmds
      "\<lparr>cmds_left = 1, error_code = 7, error_code_idx = 1\<rparr>" "[no_child]" ?pre ?w ?w1 ?w'] b0
  have r0: "wait_loop two_cmds \<lparr>cmds_left = 1, error_code = 7, error_code_idx = 1\<rparr>
       [?e2, no_child] ?w = Ok (7, [?e2\<lparr>sigs_before := []\<rparr>, no_child]) (on_signal ?w)"
    by simp
  from running_checked_around_wait [of ?e _ _ two_cmds _ "[no_child]" ?pre ?w ?w1 ?w']
    two_facts(1,2) p1 a
  have r1: "wait_for_requested_commands_to_exit two_cmds (?pre @ ?e # [no_child]) ?w =
      Ok (aggregate two_cmds ?pre, [no_child]) ?w'" by blast
  from running_checked_around_wait [of ?e2 _ _ two_cmds _ "[no_child]" ?pre2 ?w ?w2 "on_signal ?w2"]
    two_facts(1,4,5) p2 b
  have r2: "wait_for_requested_commands_to_exit two_cmds (?pre2 @ ?e2 # [no_child]) ?w =
      Ok (aggregate two_cmds ?pre2, [?e2\<lparr>sigs_before := []\<rparr>, no_child]) (on_signal ?w2)"
    "log (on_signal ?w2) = log ?w @ map reap_action ?pre2"
    "aggregate two_cmds ?pre2 = 0" by blast+
  have nr: "\<not> running (on_signal ?w)" by (simp add: on_signal_def)
  from running_checked_around_wait [of ?e ?w1 ?w' two_cmds
      "\<lparr>cmds_left = 1, error_code = 7, error_code_idx = 1\<rparr>" "[no_child]"] a
  have r3: "wait_loop two_cmds \<lparr>cmds_left = 1, error_code = 7, error_code_idx = 1\<rparr>
       [?e, no_child] ?w1 = Ok (7, [no_child]) ?w'" by simp
  from running_checked_around_wait [of _ "on_signal ?w" _ two_cmds
      "\<lparr>cmds_left = 1, error_code = 7, error_code_idx = 1\<rparr>"] nr
  have r4: "wait_loop two_cmds \<lparr>cmds_left = 1, error_code = 7, error_code_idx = 1\<rparr> []
       (on_signal ?w) = Ok (7, []) (on_signal ?w)" by simp
  have nr': "\<not> running ?w'" by (simp add: on_signal_def)
  from running_checked_around_wait [where cmds = two_cmds and evs = "?pre @ ?e # [no_child]"
      and v = ?w and c = "aggregate two_cmds ?pre" and rest = "[no_child]" and u = ?w']
    two_facts(1) r1 nr'
  have r5: "aggregate two_cmds ?pre = aggregate two_cmds (passing (?pre @ ?e # [no_child]) ?w)"
    by blast
  from r0 r1 r2 r3 r4 r5 show ?thesis unfolding c two_facts(3) l by simp
qed

section \<open>The watched commands\<close>

lemma count_watch_upto:
  "n \<le> length cmds \<Longrightarrow>
     fold (\<lambda>i k. if watch (cmds ! i) then k + 1 else k) [0..<n] (0::int) =
       int (length (filter watch (take n cmds)))"
  by (induction n) (auto simp: take_Suc_conv_app_nth)

lemma count_watch_eq: "count_watch cmds = int (length (filter watch cmds))"
  using count_watch_upto [of "length cmds" cmds] by (simp add: count_watch_def)

lemma watch_by_default_upto:
  "n \<le> length cmds \<Longrightarrow>
     fold (\<lambda>i (k, cs). if \<not> configuring (cs ! i) then (k + 1, cs[i := (cs ! i)\<lparr>watch := True\<rparr>])
                        else (k, cs)) [0..<n] (0::int, cmds) =
       (int (length (filter (\<lambda>c. \<not> configuring c) (take n cmds))),
        map default_watch (take n cmds) @ drop n cmds)"
proof (induction n)
  case 0
  then show ?case by simp
next
  case (Suc n)
  then have n: "n < length cmds" by simp
  have nth: "(map default_watch (take n cmds) @ drop n cmds) ! n = cmds ! n"
    using n by (simp add: nth_append)
  have upd: "(map default_watch (take n cmds) @ drop n cmds)[n := x] =
      map default_watch (take n cmds) @ x # drop (Suc n) cmds" for x
    using n by (simp add: list_update_append Cons_nth_drop_Suc [symmetric])
  have dw: "default_watch (cmds ! n) =
      (if configuring (cmds ! n) then cmds ! n else (cmds ! n)\<lparr>watch := True\<rparr>)"
    by (simp add: default_watch_def)
  have drop: "drop n cmds = cmds ! n # drop (Suc n) cmds"
    using n by (simp add: Cons_nth_drop_Suc)
  show ?case
  proof (cases "configuring (cmds ! n)")
    case True
    with Suc n show ?thesis
      by (simp add: nth take_Suc_conv_app_nth dw drop [symmetric])
  next
    case False
    with Suc n show ?thesis
      by (simp add: nth upd take_Suc_conv_app_nth dw)
  qed
qed

lemma watch_by_default_eq:
  "watch_by_default cmds =
     (int (length (filter (\<lambda>c. \<not> configuring c) cmds)), map default_watch cmds)"
  using watch_by_default_upto [of "length cmds" cmds] by (simp add: watch_by_default_def)

lemma collect_watch_upto:
  "fold (\<lambda>i ws. if watch (cmds ! i) then ws @ [i] else ws) [0..<n] [] =
     filter (\<lambda>i. watch (cmds ! i)) [0..<n]"
  by (induction n) auto

lemma collect_watch_eq: "collect_watch cmds = filter (\<lambda>i. watch (cmds ! i)) [0..<length cmds]"
  by (simp add: collect_watch_def collect_watch_upto)

lemma filter_by_index: "map ((!) xs) (filter (\<lambda>i. P (xs ! i)) [0..<length xs]) = filter P xs"
proof -
  have "filter P xs = filter P (map ((!) xs) [0..<length xs])" by (simp add: map_nth)
  also have "\<dots> = map ((!) xs) (filter (\<lambda>i. P (xs ! i)) [0..<length xs])"
    by (simp add: filter_map o_def)
  finally show ?thesis by simp
qed

lemma watch_default_watch: "watch (default_watch c) \<longleftrightarrow> watch c \<or> \<not> configuring c"
  by (simp add: default_watch_def)

lemma derive_watch_eq:
  "derive_watch cmds =
     (if list_ex watch cmds
      then (int (length (filter watch cmds)), cmds, filter (\<lambda>i. watch (cmds ! i)) [0..<length cmds])
      else (int (length (filter (\<lambda>c. \<not> configuring c) cmds)), map default_watch cmds,
            filter (\<lambda>i. \<not> configuring (cmds ! i)) [0..<length cmds]))"
proof -
  have none: "filter watch cmds = []" if "\<not> list_ex watch cmds"
    using that by (auto simp: list_ex_iff filter_empty_conv)
  have some: "filter watch cmds \<noteq> []" if "list_ex watch cmds"
    using that by (auto simp: list_ex_iff filter_empty_conv)
  have idx: "filter (\<lambda>i. watch (map default_watch cmds ! i)) [0..<length cmds] =
      filter (\<lambda>i. \<not> configuring (cmds ! i)) [0..<length cmds]" if "\<not> list_ex watch cmds"
    using that by (intro filter_cong) (auto simp: watch_default_watch list_ex_iff)
  show ?thesis
    using none some idx
    by (auto simp: derive_watch_def count_watch_eq watch_by_default_eq collect_watch_eq)
qed

text \<open>
  Claim C8.  Lines 267-290: when no command is marked watched, the watched commands
  are exactly the commands that are not configuring, in the order of the command list,
  and these get their \<^verbatim>\<open>watch\<close> flag set; when at least one command is marked, the
  watched commands are exactly the marked ones, in order, and nothing is changed.
  \<^verbatim>\<open>n_watch_cmds\<close> is the number of pointers stored in \<^verbatim>\<open>watch_cmds\<close>.
\<close>

theorem watch_set_derivation:
  "derive_watch cmds =
     (if list_ex watch cmds
      then (int (length (filter watch cmds)), cmds, filter (\<lambda>i. watch (cmds ! i)) [0..<length cmds])
      else (int (length (filter (\<lambda>c. \<not> configuring c) cmds)), map default_watch cmds,
            filter (\<lambda>i. \<not> configuring (cmds ! i)) [0..<length cmds]))
   \<and> (case derive_watch cmds of (n_watch_cmds, cmds', watch_cmds) \<Rightarrow>
        n_watch_cmds = int (length watch_cmds) \<and>
        map ((!) cmds') watch_cmds =
          (if list_ex watch cmds then filter watch cmds
           else filter (\<lambda>c. \<not> configuring c) (map default_watch cmds)))"
proof -
  note eq = derive_watch_eq [of cmds]
  have len: "length (filter (\<lambda>i. P (cmds ! i)) [0..<length cmds]) = length (filter P cmds)" for P
    using filter_by_index [of cmds P] by (metis length_map)
  have cfg: "filter (\<lambda>i. \<not> configuring (cmds ! i)) [0..<length cmds] =
      filter (\<lambda>i. \<not> configuring (map default_watch cmds ! i)) [0..<length (map default_watch cmds)]"
    by (auto intro!: filter_cong simp: default_watch_def)
  have m: "map ((!) (map default_watch cmds)) (filter (\<lambda>i. \<not> configuring (cmds ! i)) [0..<length cmds])
      = filter (\<lambda>c. \<not> configuring c) (map default_watch cmds)"
    unfolding cfg by (rule filter_by_index)
  show ?thesis
    unfolding eq using m len [of watch] len [of "\<lambda>c. \<not> configuring c"]
    by (simp add: filter_by_index)
qed

section \<open>The log of a run\<close>

lemma is_fork_simps [simp]:
  "is_fork (Fork x p)" "\<not> is_fork (Waitpid q s e)" "\<not> is_fork (Sigaction sg h r)"
  "\<not> is_fork (Alarm n)" "\<not> is_fork (Kill t sg)" "\<not> is_fork (reap_action ev)"
  by (simp_all add: is_fork_def reap_action_def)

lemma fork_arg_simp [simp]: "fork_arg (Fork x p) = x"
  by (simp add: fork_arg_def)

lemma is_wait_simps [simp]:
  "\<not> is_wait (Fork x p)" "is_wait (Waitpid q s e)" "\<not> is_wait (Sigaction sg h r)"
  "\<not> is_wait (Alarm n)" "\<not> is_wait (Kill t sg)" "is_wait (reap_action ev)"
  by (simp_all add: is_wait_def reap_action_def)

lemma no_children_simps [simp]:
  "\<not> no_children (Fork x p)" "no_children (Waitpid q s e) \<longleftrightarrow> q = - 1 \<and> e = ECHILD"
  "\<not> no_children (Sigaction sg h r)" "\<not> no_children (Alarm n)" "\<not> no_children (Kill t sg)"
  "no_children (reap_action ev) \<longleftrightarrow> w_pid ev = - 1 \<and> w_errno ev = ECHILD"
  by (simp_all add: no_children_def reap_action_def)

lemma is_sigaction_simps [simp]:
  "\<not> is_sigaction (Fork x p)" "\<not> is_sigaction (Waitpid q s e)" "is_sigaction (Sigaction sg h r)"
  "\<not> is_sigaction (Alarm n)" "\<not> is_sigaction (Kill t sg)" "\<not> is_sigaction (reap_action ev)"
  by (simp_all add: is_sigaction_def reap_action_def)

lemma final_deliver: "log (final (deliver s w)) = log w"
  by (simp add: deliver_def on_signal_def on_alarm_def split: handler.splits)

lemma final_deliver_all: "log (final (deliver_all ss w)) = log w"
proof (induction ss arbitrary: w)
  case Nil
  then show ?case by simp
next
  case (Cons s ss)
  show ?case
  proof (cases "deliver s w")
    case (Ok u w')
    with Cons [of w'] final_deliver [of s w] show ?thesis by simp
  next
    case (Stop r w')
    with final_deliver [of s w] show ?thesis by simp
  qed
qed

lemma final_waitpid: "log (final (waitpid e w)) = log w @ [reap_action e]"
proof -
  let ?w = "emit (Waitpid (w_pid e) (w_status e) (w_errno e)) w"
  have "log (final (waitpid e w)) = log (final (deliver_all (sigs_during e) ?w))"
    by (simp add: waitpid_def split: res.splits)
  then show ?thesis by (simp add: final_deliver_all emit_def reap_action_def)
qed

lemma final_run_proc: "log (final (run_proc a w)) = log w @ [Fork a (fork_ret w (forks w))]"
  by (simp add: run_proc_def emit_def Let_def)

lemma run_proc_Ok: "run_proc a w = Ok p w' \<Longrightarrow> log w' = log w @ [Fork a p]"
  by (auto simp: run_proc_def emit_def Let_def split: if_splits)

text \<open>A drain: the calls made, and how it ends when it ends.\<close>

lemma reap_all_log:
  "\<exists>D. log (final (reap_all evs w)) = log w @ D \<and> list_all is_wait D \<and>
     (\<forall>u evs' w'. reap_all evs w = Ok (u, evs') w' \<longrightarrow>
        D \<noteq> [] \<and> no_children (last D) \<and> list_all (\<lambda>a. \<not> no_children a) (butlast D))"
proof (induction evs arbitrary: w)
  case Nil
  then show ?case by simp
next
  case (Cons e es)
  show ?case
  proof (cases "deliver_all (sigs_before e) w")
    case (Stop r w')
    with final_deliver_all [of "sigs_before e" w] show ?thesis by simp
  next
    case (Ok u w1)
    with final_deliver_all [of "sigs_before e" w] have l1: "log w1 = log w" by simp
    show ?thesis
    proof (cases "waitpid e w1")
      case (Stop r w')
      with final_waitpid [of e w1] l1 Ok show ?thesis
        by auto
    next
      case Ok2: (Ok x w2)
      with final_waitpid [of e w1] l1 have l2: "log w2 = log w @ [reap_action e]" by simp
      from Ok2 have x: "x = (w_pid e, w_status e, w_errno e)"
        by (auto simp: waitpid_def split: res.splits)
      show ?thesis
      proof (cases "w_pid e = - 1 \<and> w_errno e = ECHILD")
        case True
        with Ok Ok2 x l2 show ?thesis
          by auto
      next
        case False
        from Cons [of w2] obtain D where D: "log (final (reap_all es w2)) = log w2 @ D"
          "list_all is_wait D"
          "\<forall>u evs' w'. reap_all es w2 = Ok (u, evs') w' \<longrightarrow>
            D \<noteq> [] \<and> no_children (last D) \<and> list_all (\<lambda>a. \<not> no_children a) (butlast D)"
          by blast
        have eq: "reap_all (e # es) w = reap_all es w2"
          using Ok Ok2 x False by auto
        have nc: "\<not> no_children (reap_action e)"
          using False by auto
        show ?thesis
          unfolding eq
          using D l2 nc
          by (intro exI [of _ "reap_action e # D"]) auto
      qed
    qed
  qed
qed

lemma flags_pid_update: "flags (cmds[i := (cmds ! i)\<lparr>pid := p\<rparr>]) = flags cmds"
proof
  fix j
  show "flags (cmds[i := (cmds ! i)\<lparr>pid := p\<rparr>]) j = flags cmds j"
  proof (cases "i = j \<and> j < length cmds")
    case True
    then show ?thesis by (simp add: flags_def)
  next
    case False
    then have "cmds[i := (cmds ! i)\<lparr>pid := p\<rparr>] ! j = cmds ! j"
      by (cases "i = j") (auto simp: list_update_beyond)
    then show ?thesis by (simp add: flags_def)
  qed
qed

lemma flags_args: "flags cmds' = flags cmds \<Longrightarrow> args (cmds' ! j) = args (cmds ! j)"
  and flags_configuring: "flags cmds' = flags cmds \<Longrightarrow> configuring (cmds' ! j) = configuring (cmds ! j)"
  and flags_watch: "flags cmds' = flags cmds \<Longrightarrow> watch (cmds' ! j) = watch (cmds ! j)"
  by (auto simp: flags_def dest: fun_cong [of _ _ j])

lemma configuring_args_flags:
  assumes "flags cmds' = flags cmds"
  shows "configuring_args cmds' is = configuring_args cmds is"
proof -
  have "\<And>j. args (cmds' ! j) = args (cmds ! j)" "\<And>j. configuring (cmds' ! j) = configuring (cmds ! j)"
    using assms by (rule flags_args, rule flags_configuring)
  then show ?thesis by (simp add: configuring_args_def)
qed

lemma main_args_flags:
  assumes "flags cmds' = flags cmds"
  shows "main_args cmds' is = main_args cmds is"
proof -
  have "\<And>j. args (cmds' ! j) = args (cmds ! j)" "\<And>j. configuring (cmds' ! j) = configuring (cmds ! j)"
    using assms by (rule flags_args, rule flags_configuring)
  then show ?thesis by (simp add: main_args_def)
qed

lemma launch_configuring_log:
  "\<exists>F. log (final (launch_configuring is cmds n w)) = log w @ F \<and> list_all is_fork F \<and>
       prefix (map fork_arg F) (configuring_args cmds is) \<and>
       (\<forall>cmds' n' w'. launch_configuring is cmds n w = Ok (cmds', n') w' \<longrightarrow>
          map fork_arg F = configuring_args cmds is \<and> n' = n + int (length F) \<and>
          flags cmds' = flags cmds \<and> length cmds' = length cmds)"
proof (induction "is" arbitrary: cmds n w)
  case Nil
  then show ?case by (simp add: configuring_args_def)
next
  case (Cons i "is")
  show ?case
  proof (cases "configuring (cmds ! i)")
    case False
    with Cons [of cmds n w] show ?thesis by (simp add: configuring_args_def)
  next
    case True
    show ?thesis
    proof (cases "run_proc (args (cmds ! i)) w")
      case (Stop r w')
      with final_run_proc [of "args (cmds ! i)" w] True show ?thesis
        by (auto simp: configuring_args_def intro!: exI [of _ "[Fork (args (cmds ! i)) (fork_ret w (forks w))]"])
    next
      case (Ok p w')
      let ?cmds = "cmds[i := (cmds ! i)\<lparr>pid := p\<rparr>]"
      from run_proc_Ok [OF Ok] have l: "log w' = log w @ [Fork (args (cmds ! i)) p]" .
      have fl: "flags ?cmds = flags cmds" by (rule flags_pid_update)
      from Cons [of ?cmds "n + 1" w'] obtain F where F:
        "log (final (launch_configuring is ?cmds (n + 1) w')) = log w' @ F" "list_all is_fork F"
        "prefix (map fork_arg F) (configuring_args ?cmds is)"
        "\<forall>cmds' n' w''. launch_configuring is ?cmds (n + 1) w' = Ok (cmds', n') w'' \<longrightarrow>
          map fork_arg F = configuring_args ?cmds is \<and> n' = n + 1 + int (length F) \<and>
          flags cmds' = flags ?cmds \<and> length cmds' = length ?cmds" by blast
      have eq: "launch_configuring (i # is) cmds n w = launch_configuring is ?cmds (n + 1) w'"
        using True Ok by simp
      have ca: "configuring_args cmds (i # is) = args (cmds ! i) # configuring_args ?cmds is"
        using True configuring_args_flags [OF fl, of "is"] by (simp add: configuring_args_def)
      show ?thesis
        unfolding eq ca
        using F l fl
        by (intro exI [of _ "Fork (args (cmds ! i)) p # F"]) auto
    qed
  qed
qed

lemma launch_main_log:
  "\<exists>F. log (final (launch_main is cmds w)) = log w @ F \<and> list_all is_fork F \<and>
       prefix (map fork_arg F) (main_args cmds is) \<and>
       (\<forall>cmds' w'. launch_main is cmds w = Ok cmds' w' \<longrightarrow>
          map fork_arg F = main_args cmds is \<and> flags cmds' = flags cmds \<and> length cmds' = length cmds)"
proof (induction "is" arbitrary: cmds w)
  case Nil
  then show ?case by (simp add: main_args_def)
next
  case (Cons i "is")
  show ?case
  proof (cases "configuring (cmds ! i)")
    case True
    with Cons [of cmds w] show ?thesis by (simp add: main_args_def)
  next
    case False
    show ?thesis
    proof (cases "run_proc (args (cmds ! i)) w")
      case (Stop r w')
      with final_run_proc [of "args (cmds ! i)" w] False show ?thesis
        by (auto simp: main_args_def intro!: exI [of _ "[Fork (args (cmds ! i)) (fork_ret w (forks w))]"])
    next
      case (Ok p w')
      let ?cmds = "cmds[i := (cmds ! i)\<lparr>pid := p\<rparr>]"
      from run_proc_Ok [OF Ok] have l: "log w' = log w @ [Fork (args (cmds ! i)) p]" .
      have fl: "flags ?cmds = flags cmds" by (rule flags_pid_update)
      from Cons [of ?cmds w'] obtain F where F:
        "log (final (launch_main is ?cmds w')) = log w' @ F" "list_all is_fork F"
        "prefix (map fork_arg F) (main_args ?cmds is)"
        "\<forall>cmds' w''. launch_main is ?cmds w' = Ok cmds' w'' \<longrightarrow>
          map fork_arg F = main_args ?cmds is \<and>
          flags cmds' = flags ?cmds \<and> length cmds' = length ?cmds" by blast
      have eq: "launch_main (i # is) cmds w = launch_main is ?cmds w'"
        using False Ok by simp
      have ca: "main_args cmds (i # is) = args (cmds ! i) # main_args ?cmds is"
        using False main_args_flags [OF fl, of "is"] by (simp add: main_args_def)
      show ?thesis
        unfolding eq ca
        using F l fl
        by (intro exI [of _ "Fork (args (cmds ! i)) p # F"]) auto
    qed
  qed
qed

lemma sigaction_log:
  "sigaction s h w = (r, w') \<Longrightarrow>
     log w' = log w @ [Sigaction s h r] \<and> r = sigaction_ret w s h \<and>
     sigaction_ret w' = sigaction_ret w \<and>
     handlers w' = (if r = 0 then (handlers w)(s := h) else handlers w)"
  by (auto simp: sigaction_def emit_def Let_def)

lemma install_log:
  "\<exists>S. log (final (install_term_and_int_handlers w)) = log w @ S \<and> list_all is_sigaction S"
proof -
  obtain r1 w1 where 1: "sigaction SIGINT Handler_on_signal w = (r1, w1)" by force
  obtain r2 w2 where 2: "sigaction SIGTERM Handler_on_signal w1 = (r2, w2)" by force
  obtain r3 w3 where 3: "sigaction SIGALRM Handler_on_alarm w2 = (r3, w3)" by force
  from sigaction_log [OF 1] sigaction_log [OF 2] sigaction_log [OF 3]
  have l: "log w1 = log w @ [Sigaction SIGINT Handler_on_signal r1]"
    "log w2 = log w @ [Sigaction SIGINT Handler_on_signal r1, Sigaction SIGTERM Handler_on_signal r2]"
    "log w3 = log w @ [Sigaction SIGINT Handler_on_signal r1, Sigaction SIGTERM Handler_on_signal r2,
       Sigaction SIGALRM Handler_on_alarm r3]"
    by simp_all
  show ?thesis
    using 1 2 3 l by (auto simp: install_term_and_int_handlers_def perror_die_def)
qed

lemma remove_log:
  "log (remove_term_and_int_handlers w) =
     log w @ Sigaction SIGINT SIG_IGN (sigaction_ret w SIGINT SIG_IGN) #
       (if sigaction_ret w SIGINT SIG_IGN = 0
        then [Sigaction SIGTERM SIG_IGN (sigaction_ret w SIGTERM SIG_IGN)] else [])"
  by (simp add: remove_term_and_int_handlers_def sigaction_def emit_def Let_def)

lemma remove_handlers:
  "sigaction_ret w SIGINT SIG_IGN = 0 \<Longrightarrow> sigaction_ret w SIGTERM SIG_IGN = 0 \<Longrightarrow>
     handlers (remove_term_and_int_handlers w) = (handlers w)(SIGINT := SIG_IGN, SIGTERM := SIG_IGN)"
  by (simp add: remove_term_and_int_handlers_def sigaction_def emit_def Let_def)

lemma wait_loop_log:
  "\<exists>R. log (final (wait_loop cmds st evs w)) = log w @ R \<and> list_all is_wait R"
proof (induction evs arbitrary: st w)
  case Nil
  then show ?case by simp
next
  case (Cons e es)
  show ?case
  proof (cases "deliver_all (sigs_before e) w")
    case (Stop r w')
    with final_deliver_all [of "sigs_before e" w] show ?thesis by simp
  next
    case (Ok u w1)
    with final_deliver_all [of "sigs_before e" w] have l1: "log w1 = log w" by simp
    show ?thesis
    proof (cases "running w1")
      case False
      with Ok l1 show ?thesis by simp
    next
      case True
      show ?thesis
      proof (cases "waitpid e w1")
        case (Stop r w')
        with final_waitpid [of e w1] l1 Ok True show ?thesis by auto
      next
        case Ok2: (Ok x w2)
        with final_waitpid [of e w1] l1 have l2: "log w2 = log w @ [reap_action e]" by simp
        obtain p s err where x: "x = (p, s, err)" by (cases x) auto
        show ?thesis
        proof (cases "running w2")
          case False
          with Ok True Ok2 x l2 show ?thesis by auto
        next
          case r2: True
          show ?thesis
          proof (cases "scan_watch_cmds cmds p s 0 st")
            case (Inl c)
            with Ok True Ok2 x l2 r2 show ?thesis by auto
          next
            case (Inr st')
            from Cons [of st' w2] obtain R where
              "log (final (wait_loop cmds st' es w2)) = log w2 @ R" "list_all is_wait R" by blast
            with Ok True Ok2 x l2 r2 Inr show ?thesis
              by (intro exI [of _ "reap_action e # R"]) auto
          qed
        qed
      qed
    qed
  qed
qed

lemma run_configure_log:
  "\<exists>CF D. log (final (run_configure_cmds cmds evs w)) = log w @ CF @ D \<and>
     list_all is_fork CF \<and> list_all is_wait D \<and>
     prefix (map fork_arg CF) (configuring_args cmds [0..<length cmds]) \<and>
     (D \<noteq> [] \<longrightarrow> map fork_arg CF = configuring_args cmds [0..<length cmds]) \<and>
     (configuring_args cmds [0..<length cmds] = [] \<longrightarrow> D = []) \<and>
     (\<forall>cmds' evs' w'. run_configure_cmds cmds evs w = Ok (cmds', evs') w' \<longrightarrow>
        map fork_arg CF = configuring_args cmds [0..<length cmds] \<and>
        (configuring_args cmds [0..<length cmds] \<noteq> [] \<longrightarrow>
           D \<noteq> [] \<and> no_children (last D) \<and> list_all (\<lambda>a. \<not> no_children a) (butlast D)) \<and>
        flags cmds' = flags cmds \<and> length cmds' = length cmds)"
proof -
  define cfg where "cfg = configuring_args cmds [0..<length cmds]"
  define L where "L = launch_configuring [0..<length cmds] cmds 0 w"
  from launch_configuring_log [of "[0..<length cmds]" cmds 0 w, folded cfg_def L_def]
  obtain F where all: "log (final L) = log w @ F \<and> list_all is_fork F \<and>
       prefix (map fork_arg F) cfg \<and>
       (\<forall>cmds' n' w'. L = Ok (cmds', n') w' \<longrightarrow>
          map fork_arg F = cfg \<and> n' = 0 + int (length F) \<and>
          flags cmds' = flags cmds \<and> length cmds' = length cmds)" ..
  then have F: "log (final L) = log w @ F" "list_all is_fork F" "prefix (map fork_arg F) cfg"
    by blast+
  have Fok: "map fork_arg F = cfg \<and> n' = int (length F) \<and>
          flags cmds' = flags cmds \<and> length cmds' = length cmds"
    if "L = Ok (cmds', n') w'" for cmds' n' w'
    using all that by simp
  have unfold: "run_configure_cmds cmds evs w =
     (case L of
        Stop r w' \<Rightarrow> Stop r w'
      | Ok (cmds', n) w' \<Rightarrow>
          if n \<noteq> 0 then
            (case reap_all evs w' of
               Stop r w'' \<Rightarrow> Stop r w''
             | Ok (u, evs') w'' \<Rightarrow> Ok (cmds', evs') w'')
          else Ok (cmds', evs) w')"
    by (simp add: run_configure_cmds_def L_def)
  have "\<exists>CF D. log (final (run_configure_cmds cmds evs w)) = log w @ CF @ D \<and>
     list_all is_fork CF \<and> list_all is_wait D \<and>
     prefix (map fork_arg CF) cfg \<and>
     (D \<noteq> [] \<longrightarrow> map fork_arg CF = cfg) \<and>
     (cfg = [] \<longrightarrow> D = []) \<and>
     (\<forall>cmds' evs' w'. run_configure_cmds cmds evs w = Ok (cmds', evs') w' \<longrightarrow>
        map fork_arg CF = cfg \<and>
        (cfg \<noteq> [] \<longrightarrow>
           D \<noteq> [] \<and> no_children (last D) \<and> list_all (\<lambda>a. \<not> no_children a) (butlast D)) \<and>
        flags cmds' = flags cmds \<and> length cmds' = length cmds)"
  proof (cases L)
    case (Stop r w')
    then have eq: "run_configure_cmds cmds evs w = Stop r w'" by (simp add: unfold)
    have fin: "log (final (run_configure_cmds cmds evs w)) = log w @ F @ []"
      using F(1) Stop eq by simp
    show ?thesis
      apply (rule exI [of _ F], rule exI [of _ "[]"])
      using fin F(2,3) eq by simp
  next
    case (Ok x w1)
    obtain cmds1 n1 where x: "x = (cmds1, n1)" by (cases x) auto
    from Fok [of cmds1 n1 w1] Ok x have 1: "map fork_arg F = cfg" "n1 = int (length F)"
      "flags cmds1 = flags cmds" "length cmds1 = length cmds" by auto
    from F(1) Ok have l1: "log w1 = log w @ F" by simp
    from 1(1) have len: "length F = length cfg" by (metis length_map)
    show ?thesis
    proof (cases "n1 = 0")
      case True
      with 1(2) len have e: "cfg = []" by simp
      have eq: "run_configure_cmds cmds evs w = Ok (cmds1, evs) w1"
        using Ok x True by (simp add: unfold)
      show ?thesis
        apply (rule exI [of _ F], rule exI [of _ "[]"])
        using eq l1 F(2,3) 1 e by simp
    next
      case False
      with 1(2) len have ne: "cfg \<noteq> []" by auto
      from reap_all_log [of evs w1] obtain D where D:
        "log (final (reap_all evs w1)) = log w1 @ D" "list_all is_wait D"
        and Dok: "\<And>u evs' w'. reap_all evs w1 = Ok (u, evs') w' \<Longrightarrow>
          D \<noteq> [] \<and> no_children (last D) \<and> list_all (\<lambda>a. \<not> no_children a) (butlast D)" by blast
      have eq: "run_configure_cmds cmds evs w =
          (case reap_all evs w1 of
               Stop r w'' \<Rightarrow> Stop r w''
             | Ok (u, evs') w'' \<Rightarrow> Ok (cmds1, evs') w'')"
        using Ok x False by (simp add: unfold)
      have fin: "log (final (run_configure_cmds cmds evs w)) = log w @ F @ D"
        unfolding eq using D(1) l1 by (cases "reap_all evs w1") auto
      have ok: "cmds' = cmds1 \<and> D \<noteq> [] \<and> no_children (last D) \<and>
          list_all (\<lambda>a. \<not> no_children a) (butlast D)"
        if "run_configure_cmds cmds evs w = Ok (cmds', evs') w'" for cmds' evs' w'
      proof (cases "reap_all evs w1")
        case (Stop r w'')
        with that eq show ?thesis by simp
      next
        case Ok3: (Ok y w'')
        obtain u evs'' where "y = (u, evs'')" by (cases y) auto
        with Ok3 that eq Dok [of u evs'' w''] show ?thesis by simp
      qed
      show ?thesis
        apply (rule exI [of _ F], rule exI [of _ D])
        using fin F(2,3) D(2) 1 ne ok by blast
    qed
  qed
  then show ?thesis unfolding cfg_def .
qed

lemma install_Ok:
  "install_term_and_int_handlers w = Ok u w1 \<Longrightarrow> log w1 = log w @ installs"
  by (auto simp: install_term_and_int_handlers_def perror_die_def sigaction_def emit_def Let_def
      installs_def split: if_splits)

lemma default_watch_fields [simp]:
  "args (default_watch c) = args c" "configuring (default_watch c) = configuring c"
  by (simp_all add: default_watch_def)

lemma derive_watch_launch:
  assumes "derive_watch cmds = (n, cmds0, ws)"
  shows "length cmds0 = length cmds"
    "configuring_args cmds0 [0..<length cmds0] = configuring_args cmds [0..<length cmds]"
    "main_args cmds0 [0..<length cmds0] = main_args cmds [0..<length cmds]"
proof -
  from assms derive_watch_eq [of cmds] have c: "cmds0 = cmds \<or> cmds0 = map default_watch cmds"
    by (auto split: if_splits)
  then show len: "length cmds0 = length cmds" by auto
  have a: "args (cmds0 ! i) = args (cmds ! i)" "configuring (cmds0 ! i) = configuring (cmds ! i)"
    if "i < length cmds" for i
    using c that by auto
  have f: "filter (\<lambda>i. configuring (cmds0 ! i)) [0..<length cmds] =
      filter (\<lambda>i. configuring (cmds ! i)) [0..<length cmds]"
    by (rule filter_cong) (auto simp: a)
  have g: "filter (\<lambda>i. \<not> configuring (cmds0 ! i)) [0..<length cmds] =
      filter (\<lambda>i. \<not> configuring (cmds ! i)) [0..<length cmds]"
    by (rule filter_cong) (auto simp: a)
  show "configuring_args cmds0 [0..<length cmds0] = configuring_args cmds [0..<length cmds]"
    unfolding configuring_args_def len f by (rule map_cong) (auto simp: a)
  show "main_args cmds0 [0..<length cmds0] = main_args cmds [0..<length cmds]"
    unfolding main_args_def len g by (rule map_cong) (auto simp: a)
qed

lemma main_args_same:
  assumes "flags cmds' = flags cmds" "length cmds' = length cmds"
  shows "main_args cmds' [0..<length cmds'] = main_args cmds [0..<length cmds]"
  using main_args_flags [OF assms(1)] assms(2) by simp

lemma main_setup_log:
  "\<exists>S CF D. log (final (main_setup cmds evs w)) = log w @ S @ CF @ D \<and>
     list_all is_sigaction S \<and> list_all is_fork CF \<and> list_all is_wait D \<and>
     prefix (map fork_arg CF) (configuring_args cmds [0..<length cmds]) \<and>
     (D \<noteq> [] \<longrightarrow> map fork_arg CF = configuring_args cmds [0..<length cmds]) \<and>
     (configuring_args cmds [0..<length cmds] = [] \<longrightarrow> D = []) \<and>
     (\<forall>cmds1 ws evs' w1. main_setup cmds evs w = Ok (cmds1, ws, evs') w1 \<longrightarrow>
        S = installs \<and> map fork_arg CF = configuring_args cmds [0..<length cmds] \<and>
        (configuring_args cmds [0..<length cmds] \<noteq> [] \<longrightarrow>
           D \<noteq> [] \<and> no_children (last D) \<and> list_all (\<lambda>a. \<not> no_children a) (butlast D)) \<and>
        main_args cmds1 [0..<length cmds1] = main_args cmds [0..<length cmds])"
proof -
  define cfg where "cfg = configuring_args cmds [0..<length cmds]"
  obtain n cmds0 ws0 where dw: "derive_watch cmds = (n, cmds0, ws0)" by (cases "derive_watch cmds") auto
  note l0 = derive_watch_launch [OF dw]
  have unfold: "main_setup cmds evs w =
        (case install_term_and_int_handlers w of
           Stop r w' \<Rightarrow> Stop r w'
         | Ok u w1 \<Rightarrow>
             (case deliver_all (sigs_at_start w1) w1 of
                Stop r w' \<Rightarrow> Stop r w'
              | Ok u' w2 \<Rightarrow>
                  (case run_configure_cmds cmds0 evs w2 of
                     Stop r w' \<Rightarrow> Stop r w'
                   | Ok (cmds1, evs') w3 \<Rightarrow> Ok (cmds1, ws0, evs') w3)))"
    by (simp add: main_setup_def dw)
  have "\<exists>S CF D. log (final (main_setup cmds evs w)) = log w @ S @ CF @ D \<and>
     list_all is_sigaction S \<and> list_all is_fork CF \<and> list_all is_wait D \<and>
     prefix (map fork_arg CF) cfg \<and> (D \<noteq> [] \<longrightarrow> map fork_arg CF = cfg) \<and> (cfg = [] \<longrightarrow> D = []) \<and>
     (\<forall>cmds1 ws evs' w1. main_setup cmds evs w = Ok (cmds1, ws, evs') w1 \<longrightarrow>
        S = installs \<and> map fork_arg CF = cfg \<and>
        (cfg \<noteq> [] \<longrightarrow> D \<noteq> [] \<and> no_children (last D) \<and> list_all (\<lambda>a. \<not> no_children a) (butlast D)) \<and>
        main_args cmds1 [0..<length cmds1] = main_args cmds [0..<length cmds])"
  proof (cases "install_term_and_int_handlers w")
    case (Stop r w')
    from install_log [of w] obtain S where S: "log (final (install_term_and_int_handlers w)) = log w @ S"
      "list_all is_sigaction S" by blast
    have eq: "main_setup cmds evs w = Stop r w'" using Stop by (simp add: unfold)
    have fin: "log (final (main_setup cmds evs w)) = log w @ S @ [] @ []"
      using S(1) Stop eq by simp
    show ?thesis
      apply (rule exI [of _ S], rule exI [of _ "[]"], rule exI [of _ "[]"])
      using fin S(2) eq by simp
  next
    case (Ok u w1)
    from install_Ok [OF Ok] have l1: "log w1 = log w @ installs" .
    have sg: "list_all is_sigaction installs" by (simp add: installs_def)
    show ?thesis
    proof (cases "deliver_all (sigs_at_start w1) w1")
      case (Stop r w')
      have eq: "main_setup cmds evs w = Stop r w'" using Ok Stop by (simp add: unfold)
      have fin: "log (final (main_setup cmds evs w)) = log w @ installs @ [] @ []"
        using final_deliver_all [of "sigs_at_start w1" w1] Stop l1 eq by simp
      show ?thesis
        apply (rule exI [of _ installs], rule exI [of _ "[]"], rule exI [of _ "[]"])
        using fin sg eq by simp
    next
      case Ok2: (Ok u' w2)
      from final_deliver_all [of "sigs_at_start w1" w1] Ok2 l1 have l2: "log w2 = log w @ installs"
        by simp
      define C where "C = run_configure_cmds cmds0 evs w2"
      from run_configure_log [of cmds0 evs w2, unfolded l0(2), folded cfg_def C_def]
      obtain CF D where all: "log (final C) = log w2 @ CF @ D \<and>
          list_all is_fork CF \<and> list_all is_wait D \<and> prefix (map fork_arg CF) cfg \<and>
          (D \<noteq> [] \<longrightarrow> map fork_arg CF = cfg) \<and> (cfg = [] \<longrightarrow> D = []) \<and>
          (\<forall>cmds' evs' w'. C = Ok (cmds', evs') w' \<longrightarrow>
             map fork_arg CF = cfg \<and>
             (cfg \<noteq> [] \<longrightarrow> D \<noteq> [] \<and> no_children (last D) \<and> list_all (\<lambda>a. \<not> no_children a) (butlast D)) \<and>
             flags cmds' = flags cmds0 \<and> length cmds' = length cmds0)" by blast
      have eq: "main_setup cmds evs w =
          (case C of Stop r w' \<Rightarrow> Stop r w' | Ok (cmds1, evs') w3 \<Rightarrow> Ok (cmds1, ws0, evs') w3)"
        using Ok Ok2 by (simp add: unfold C_def)
      have fin: "log (final (main_setup cmds evs w)) = log w @ installs @ CF @ D"
        unfolding eq using all l2 by (cases C) auto
      have ok: "map fork_arg CF = cfg \<and>
             (cfg \<noteq> [] \<longrightarrow> D \<noteq> [] \<and> no_children (last D) \<and> list_all (\<lambda>a. \<not> no_children a) (butlast D)) \<and>
             main_args cmds1 [0..<length cmds1] = main_args cmds [0..<length cmds]"
        if "main_setup cmds evs w = Ok (cmds1, ws, evs') w1'" for cmds1 ws evs' w1'
      proof -
        from that eq have c: "C = Ok (cmds1, evs') w1'" by (cases C) auto
        with all have "map fork_arg CF = cfg \<and>
             (cfg \<noteq> [] \<longrightarrow> D \<noteq> [] \<and> no_children (last D) \<and> list_all (\<lambda>a. \<not> no_children a) (butlast D)) \<and>
             flags cmds1 = flags cmds0 \<and> length cmds1 = length cmds0" by blast
        moreover from this have "main_args cmds1 [0..<length cmds1] = main_args cmds0 [0..<length cmds0]"
          by (intro main_args_same) auto
        ultimately show ?thesis using l0(3) by simp
      qed
      show ?thesis
        apply (rule exI [of _ installs], rule exI [of _ CF], rule exI [of _ D])
        using fin sg all ok by blast
    qed
  qed
  then show ?thesis unfolding cfg_def .
qed

lemma final_kill: "log (final (kill t s w)) = log w @ [Kill t s]"
  by (simp add: kill_def Let_def final_deliver) (simp add: emit_def)

lemma main_phase_log:
  "\<exists>MF W B. log (final (main_phase opts cmds ws evs w)) = log w @ MF @ W @ B \<and>
     list_all is_fork MF \<and> prefix (map fork_arg MF) (main_args cmds [0..<length cmds]) \<and>
     list_all is_wait W \<and>
     (W \<noteq> [] \<or> B \<noteq> [] \<longrightarrow> map fork_arg MF = main_args cmds [0..<length cmds]) \<and>
     (B = [] \<or> (\<exists>r1 r2 D. B = shutdown_calls opts r1 r2 @ D \<and> list_all is_wait D))"
proof -
  define man where "man = main_args cmds [0..<length cmds]"
  define L where "L = launch_main [0..<length cmds] cmds w"
  from launch_main_log [of "[0..<length cmds]" cmds w, folded man_def L_def]
  obtain MF where all: "log (final L) = log w @ MF \<and> list_all is_fork MF \<and>
       prefix (map fork_arg MF) man \<and>
       (\<forall>cmds' w'. L = Ok cmds' w' \<longrightarrow>
          map fork_arg MF = man \<and> flags cmds' = flags cmds \<and> length cmds' = length cmds)" ..
  then have MF: "log (final L) = log w @ MF" "list_all is_fork MF" "prefix (map fork_arg MF) man"
    by blast+
  have "\<exists>MF W B. log (final (main_phase opts cmds ws evs w)) = log w @ MF @ W @ B \<and>
     list_all is_fork MF \<and> prefix (map fork_arg MF) man \<and> list_all is_wait W \<and>
     (W \<noteq> [] \<or> B \<noteq> [] \<longrightarrow> map fork_arg MF = man) \<and>
     (B = [] \<or> (\<exists>r1 r2 D. B = shutdown_calls opts r1 r2 @ D \<and> list_all is_wait D))"
  proof (cases L)
    case (Stop r w')
    then have eq: "main_phase opts cmds ws evs w = Stop r w'"
      by (simp add: main_phase_def run_cmds_def L_def)
    have fin: "log (final (main_phase opts cmds ws evs w)) = log w @ MF @ [] @ []"
      using MF(1) Stop eq by simp
    show ?thesis
      apply (rule exI [of _ MF], rule exI [of _ "[]"], rule exI [of _ "[]"])
      using fin MF(2,3) by simp
  next
    case (Ok cmds' w1)
    with all have full: "map fork_arg MF = man" by blast
    from MF(1) Ok have l1: "log w1 = log w @ MF" by simp
    define Q where "Q = wait_for_requested_commands_to_exit (map ((!) cmds') ws) evs w1"
    from wait_loop_log obtain W where W: "log (final Q) = log w1 @ W" "list_all is_wait W"
      unfolding Q_def wait_for_requested_commands_to_exit_def by blast
    show ?thesis
    proof (cases Q)
      case (Stop r w')
      then have eq: "main_phase opts cmds ws evs w = Stop r w'"
        using Ok by (simp add: main_phase_def run_cmds_def L_def [symmetric] Q_def [symmetric])
      have fin: "log (final (main_phase opts cmds ws evs w)) = log w @ MF @ W @ []"
        using W(1) l1 Stop eq by simp
      show ?thesis
        apply (rule exI [of _ MF], rule exI [of _ W], rule exI [of _ "[]"])
        using fin MF(2,3) W(2) full by simp
    next
      case Ok2: (Ok x w2)
      obtain code evs' where x: "x = (code, evs')" by (cases x) auto
      from W(1) Ok2 l1 have l2: "log w2 = log w @ MF @ W" by simp
      define r1 where "r1 = sigaction_ret w2 SIGINT SIG_IGN"
      define r2 where "r2 = sigaction_ret w2 SIGTERM SIG_IGN"
      define t where "t = (if signal_everything opts then - 1 else (0::int))"
      define w4 where "w4 = emit (Alarm WAIT_FOR_PROC_DEATH_TIMEOUT) (remove_term_and_int_handlers w2)"
      define K where "K = kill t SIGTERM w4"
      have l4: "log w4 = log w2 @ Sigaction SIGINT SIG_IGN r1 #
          (if r1 = 0 then [Sigaction SIGTERM SIG_IGN r2] else []) @ [Alarm WAIT_FOR_PROC_DEATH_TIMEOUT]"
        by (simp add: w4_def emit_def remove_log r1_def r2_def)
      have lK: "log (final K) = log w2 @ shutdown_calls opts r1 r2"
        using final_kill [of t SIGTERM w4] l4 by (simp add: K_def shutdown_calls_def t_def)
      have eq: "main_phase opts cmds ws evs w =
          (case K of
             Stop r w' \<Rightarrow> Stop r w'
           | Ok u w5 \<Rightarrow>
               (case deliver_all (sigs_after_arm w5) w5 of
                  Stop r w' \<Rightarrow> Stop r w'
                | Ok u' w6 \<Rightarrow>
                    (case wait_for_all_processes_to_exit code evs' w6 of
                       Stop r w' \<Rightarrow> Stop r w'
                     | Ok (u'', evs'') w7 \<Rightarrow> Ok (code, evs'') w7)))"
        using Ok Ok2 x
        by (simp add: main_phase_def run_cmds_def L_def [symmetric] Q_def [symmetric] Let_def
            K_def w4_def t_def)
      have "\<exists>D. log (final (main_phase opts cmds ws evs w)) = log w2 @ shutdown_calls opts r1 r2 @ D \<and>
          list_all is_wait D"
      proof (cases K)
        case (Stop r w')
        with lK eq show ?thesis by (intro exI [of _ "[]"]) simp
      next
        case Ok3: (Ok u w5)
        with lK have l5: "log w5 = log w2 @ shutdown_calls opts r1 r2" by simp
        show ?thesis
        proof (cases "deliver_all (sigs_after_arm w5) w5")
          case (Stop r w')
          with final_deliver_all [of "sigs_after_arm w5" w5] l5 Ok3 eq show ?thesis
            by (intro exI [of _ "[]"]) simp
        next
          case Ok4: (Ok u' w6)
          with final_deliver_all [of "sigs_after_arm w5" w5] l5
          have l6: "log w6 = log w2 @ shutdown_calls opts r1 r2" by simp
          from reap_all_log [of evs' "w6\<lparr>alarm_exit_code := code\<rparr>"]
          obtain D where D: "log (final (wait_for_all_processes_to_exit code evs' w6)) = log w6 @ D"
            "list_all is_wait D"
            unfolding wait_for_all_processes_to_exit_def by auto
          have "log (final (main_phase opts cmds ws evs w)) =
              log (final (wait_for_all_processes_to_exit code evs' w6))"
            unfolding eq using Ok3 Ok4
            by (cases "wait_for_all_processes_to_exit code evs' w6") auto
          with D l6 show ?thesis by (intro exI [of _ D]) simp
        qed
      qed
      then obtain D where D: "log (final (main_phase opts cmds ws evs w)) =
          log w2 @ shutdown_calls opts r1 r2 @ D" "list_all is_wait D" by blast
      have fin: "log (final (main_phase opts cmds ws evs w)) =
          log w @ MF @ W @ (shutdown_calls opts r1 r2 @ D)"
        using D(1) l2 by simp
      have B: "\<exists>r1' r2' D'. shutdown_calls opts r1 r2 @ D = shutdown_calls opts r1' r2' @ D' \<and>
          list_all is_wait D'"
        using D(2) by blast
      show ?thesis
        apply (rule exI [of _ MF], rule exI [of _ W], rule exI [of _ "shutdown_calls opts r1 r2 @ D"])
        using fin MF(2,3) W(2) full B by blast
    qed
  qed
  then show ?thesis unfolding man_def .
qed

lemma main_body_log:
  "\<exists>S CF D MF W B. log (snd (main_body cmds opts evs w)) = log w @ S @ CF @ D @ MF @ W @ B \<and>
     list_all is_sigaction S \<and> list_all is_fork CF \<and> list_all is_wait D \<and>
     list_all is_fork MF \<and> list_all is_wait W \<and>
     prefix (map fork_arg CF) (configuring_args cmds [0..<length cmds]) \<and>
     prefix (map fork_arg MF) (main_args cmds [0..<length cmds]) \<and>
     (D \<noteq> [] \<or> MF \<noteq> [] \<or> W \<noteq> [] \<or> B \<noteq> [] \<longrightarrow>
        map fork_arg CF = configuring_args cmds [0..<length cmds]) \<and>
     (configuring_args cmds [0..<length cmds] = [] \<longrightarrow> D = []) \<and>
     (configuring_args cmds [0..<length cmds] \<noteq> [] \<and> (MF \<noteq> [] \<or> W \<noteq> [] \<or> B \<noteq> []) \<longrightarrow>
        D \<noteq> [] \<and> no_children (last D) \<and> list_all (\<lambda>a. \<not> no_children a) (butlast D)) \<and>
     (W \<noteq> [] \<or> B \<noteq> [] \<longrightarrow> map fork_arg MF = main_args cmds [0..<length cmds]) \<and>
     (B = [] \<or> (\<exists>r1 r2 D2. B = shutdown_calls opts r1 r2 @ D2 \<and> list_all is_wait D2))"
proof -
  define cfg where "cfg = configuring_args cmds [0..<length cmds]"
  define man where "man = main_args cmds [0..<length cmds]"
  define M where "M = main_setup cmds evs w"
  from main_setup_log [of cmds evs w, folded cfg_def M_def]
  obtain S CF D where su: "log (final M) = log w @ S @ CF @ D \<and>
     list_all is_sigaction S \<and> list_all is_fork CF \<and> list_all is_wait D \<and>
     prefix (map fork_arg CF) cfg \<and> (D \<noteq> [] \<longrightarrow> map fork_arg CF = cfg) \<and> (cfg = [] \<longrightarrow> D = []) \<and>
     (\<forall>cmds1 ws evs' w1. M = Ok (cmds1, ws, evs') w1 \<longrightarrow>
        S = installs \<and> map fork_arg CF = cfg \<and>
        (cfg \<noteq> [] \<longrightarrow> D \<noteq> [] \<and> no_children (last D) \<and> list_all (\<lambda>a. \<not> no_children a) (butlast D)) \<and>
        main_args cmds1 [0..<length cmds1] = main_args cmds [0..<length cmds])" by blast
  then have s1: "log (final M) = log w @ S @ CF @ D" "list_all is_sigaction S" "list_all is_fork CF"
    "list_all is_wait D" "prefix (map fork_arg CF) cfg" "D \<noteq> [] \<longrightarrow> map fork_arg CF = cfg"
    "cfg = [] \<longrightarrow> D = []" by blast+
  have "\<exists>MF W B. log (snd (main_body cmds opts evs w)) = log w @ S @ CF @ D @ MF @ W @ B \<and>
     list_all is_fork MF \<and> list_all is_wait W \<and> prefix (map fork_arg MF) man \<and>
     (MF \<noteq> [] \<or> W \<noteq> [] \<or> B \<noteq> [] \<longrightarrow> map fork_arg CF = cfg \<and>
        (cfg \<noteq> [] \<longrightarrow> D \<noteq> [] \<and> no_children (last D) \<and> list_all (\<lambda>a. \<not> no_children a) (butlast D))) \<and>
     (W \<noteq> [] \<or> B \<noteq> [] \<longrightarrow> map fork_arg MF = man) \<and>
     (B = [] \<or> (\<exists>r1 r2 D2. B = shutdown_calls opts r1 r2 @ D2 \<and> list_all is_wait D2))"
  proof (cases M)
    case (Stop r w')
    then have "main_body cmds opts evs w = (r, w')" by (simp add: main_body_def M_def [symmetric])
    with s1(1) Stop have fin: "log (snd (main_body cmds opts evs w)) = log w @ S @ CF @ D @ [] @ [] @ []"
      by simp
    show ?thesis
      apply (rule exI [of _ "[]"], rule exI [of _ "[]"], rule exI [of _ "[]"])
      using fin by simp
  next
    case (Ok x w1)
    obtain cmds1 ws evs' where x: "x = (cmds1, ws, evs')" by (cases x) auto
    from su Ok x have ok: "map fork_arg CF = cfg"
        "cfg \<noteq> [] \<longrightarrow> D \<noteq> [] \<and> no_children (last D) \<and> list_all (\<lambda>a. \<not> no_children a) (butlast D)"
        "main_args cmds1 [0..<length cmds1] = man" unfolding man_def by blast+
    from s1(1) Ok have l1: "log w1 = log w @ S @ CF @ D" by simp
    show ?thesis
    proof (cases "running w1")
      case False
      with Ok x have "main_body cmds opts evs w = (Return None, w1)"
        by (simp add: main_body_def M_def [symmetric])
      with l1 have fin: "log (snd (main_body cmds opts evs w)) = log w @ S @ CF @ D @ [] @ [] @ []"
        by simp
      show ?thesis
        apply (rule exI [of _ "[]"], rule exI [of _ "[]"], rule exI [of _ "[]"])
        using fin by simp
    next
      case True
      define P where "P = main_phase opts cmds1 ws evs' w1"
      from main_phase_log [of opts cmds1 ws evs' w1, unfolded ok(3), folded P_def]
      obtain MF W B where ph: "log (final P) = log w1 @ MF @ W @ B \<and>
           list_all is_fork MF \<and> prefix (map fork_arg MF) man \<and> list_all is_wait W \<and>
           (W \<noteq> [] \<or> B \<noteq> [] \<longrightarrow> map fork_arg MF = man) \<and>
           (B = [] \<or> (\<exists>r1 r2 D. B = shutdown_calls opts r1 r2 @ D \<and> list_all is_wait D))" by blast
      have "snd (main_body cmds opts evs w) = final P"
        using Ok x True by (cases P) (auto simp: main_body_def M_def [symmetric] P_def [symmetric])
      with ph l1 have fin: "log (snd (main_body cmds opts evs w)) = log w @ S @ CF @ D @ MF @ W @ B"
        by simp
      show ?thesis
        apply (rule exI [of _ MF], rule exI [of _ W], rule exI [of _ B])
        using fin ph ok(1,2) by blast
    qed
  qed
  then obtain MF W B where m: "log (snd (main_body cmds opts evs w)) = log w @ S @ CF @ D @ MF @ W @ B \<and>
     list_all is_fork MF \<and> list_all is_wait W \<and> prefix (map fork_arg MF) man \<and>
     (MF \<noteq> [] \<or> W \<noteq> [] \<or> B \<noteq> [] \<longrightarrow> map fork_arg CF = cfg \<and>
        (cfg \<noteq> [] \<longrightarrow> D \<noteq> [] \<and> no_children (last D) \<and> list_all (\<lambda>a. \<not> no_children a) (butlast D))) \<and>
     (W \<noteq> [] \<or> B \<noteq> [] \<longrightarrow> map fork_arg MF = man) \<and>
     (B = [] \<or> (\<exists>r1 r2 D2. B = shutdown_calls opts r1 r2 @ D2 \<and> list_all is_wait D2))" by blast
  have "log (snd (main_body cmds opts evs w)) = log w @ S @ CF @ D @ MF @ W @ B \<and>
     list_all is_sigaction S \<and> list_all is_fork CF \<and> list_all is_wait D \<and>
     list_all is_fork MF \<and> list_all is_wait W \<and>
     prefix (map fork_arg CF) cfg \<and> prefix (map fork_arg MF) man \<and>
     (D \<noteq> [] \<or> MF \<noteq> [] \<or> W \<noteq> [] \<or> B \<noteq> [] \<longrightarrow> map fork_arg CF = cfg) \<and>
     (cfg = [] \<longrightarrow> D = []) \<and>
     (cfg \<noteq> [] \<and> (MF \<noteq> [] \<or> W \<noteq> [] \<or> B \<noteq> []) \<longrightarrow>
        D \<noteq> [] \<and> no_children (last D) \<and> list_all (\<lambda>a. \<not> no_children a) (butlast D)) \<and>
     (W \<noteq> [] \<or> B \<noteq> [] \<longrightarrow> map fork_arg MF = man) \<and>
     (B = [] \<or> (\<exists>r1 r2 D2. B = shutdown_calls opts r1 r2 @ D2 \<and> list_all is_wait D2))"
    using m s1 by blast
  then show ?thesis unfolding cfg_def man_def by blast
qed

subsection \<open>Parsing makes no system call\<close>

lemma final_handle_opts: "final (handle_opts cs opts cmd w) = w"
  by (induction cs opts cmd w rule: handle_opts.induct) auto

lemma final_parse_cmd_args: "final (parse_cmd_args opts cmd arg_it args_end mem w) = w"
proof -
  obtain cs optind where g: "getopt (args_end - arg_it) (drop (arg_it - 1) mem) = (cs, optind)"
    by force
  show ?thesis
    unfolding parse_cmd_args_def g
    using final_handle_opts [of cs opts cmd w]
    by (cases "handle_opts cs opts cmd w") auto
qed

lemma parse_loop_end:
  "\<not> arg_it < length mem \<Longrightarrow> parse_loop arg_it cmd_idx cmds opts mem w = Ok (cmds, opts, mem) w"
  by (subst parse_loop.simps) simp

lemma parse_loop_null:
  "arg_it < length mem \<Longrightarrow> mem ! arg_it = None \<Longrightarrow>
     parse_loop arg_it cmd_idx cmds opts mem w = Stop Segfault w"
  by (subst parse_loop.simps) simp

lemma parse_loop_word:
  "arg_it < length mem \<Longrightarrow> mem ! arg_it = Some s \<Longrightarrow> s \<noteq> SEP \<Longrightarrow>
     parse_loop arg_it cmd_idx cmds opts mem w = parse_loop (arg_it + 1) cmd_idx cmds opts mem w"
  by (subst parse_loop.simps) simp

lemma parse_loop_last_sep:
  "arg_it < length mem \<Longrightarrow> mem ! arg_it = Some SEP \<Longrightarrow> arg_it + 1 = length mem \<Longrightarrow>
     parse_loop arg_it cmd_idx cmds opts mem w = Stop (Exit 1) w"
  by (subst parse_loop.simps) simp

lemma parse_loop_overflow:
  "arg_it < length mem \<Longrightarrow> mem ! arg_it = Some SEP \<Longrightarrow> arg_it + 1 \<noteq> length mem \<Longrightarrow>
   \<not> cmd_idx + 1 < length cmds \<Longrightarrow>
     parse_loop arg_it cmd_idx cmds opts mem w = Stop Segfault w"
  by (subst parse_loop.simps) simp

lemma parse_loop_sep:
  "arg_it < length mem \<Longrightarrow> mem ! arg_it = Some SEP \<Longrightarrow> arg_it + 1 \<noteq> length mem \<Longrightarrow>
   cmd_idx + 1 < length cmds \<Longrightarrow>
     parse_loop arg_it cmd_idx cmds opts mem w =
       (case parse_cmd_args opts (cmds ! (cmd_idx + 1)) (arg_it + 1) (length mem)
               (mem[arg_it := None]) w of
          Stop r w' \<Rightarrow> Stop r w'
        | Ok (opts', cmd') w' \<Rightarrow>
            (case args cmd' of
               None \<Rightarrow> Stop Segfault w'
             | Some a \<Rightarrow>
                 parse_loop a (cmd_idx + 1) (cmds[cmd_idx + 1 := cmd']) opts' (mem[arg_it := None]) w'))"
  by (subst parse_loop.simps) (simp add: Let_def)

lemma final_parse_loop: "final (parse_loop arg_it cmd_idx cmds opts mem w) = w"
proof (induction "length mem - arg_it" arbitrary: arg_it cmd_idx cmds opts mem rule: less_induct)
  case less
  show ?case
  proof (cases "arg_it < length mem")
    case False
    then show ?thesis by (simp add: parse_loop_end)
  next
    case True
    show ?thesis
    proof (cases "mem ! arg_it")
      case None
      with True show ?thesis by (simp add: parse_loop_null)
    next
      case (Some s)
      show ?thesis
      proof (cases "s = SEP")
        case False
        have "length mem - (arg_it + 1) < length mem - arg_it" using True by simp
        from less [OF this] parse_loop_word [OF True Some False] show ?thesis by simp
      next
        case sep: True
        show ?thesis
        proof (cases "arg_it + 1 = length mem")
          case True
          with \<open>arg_it < length mem\<close> Some sep show ?thesis by (simp add: parse_loop_last_sep)
        next
          case ne: False
          show ?thesis
          proof (cases "cmd_idx + 1 < length cmds")
            case False
            with True Some sep ne show ?thesis by (simp add: parse_loop_overflow)
          next
            case idx: True
            define mem' where "mem' = mem[arg_it := None]"
            define P where "P = parse_cmd_args opts (cmds ! (cmd_idx + 1)) (arg_it + 1) (length mem) mem' w"
            have fp: "final P = w" unfolding P_def by (rule final_parse_cmd_args)
            have eq: "parse_loop arg_it cmd_idx cmds opts mem w =
                (case P of
                   Stop r w' \<Rightarrow> Stop r w'
                 | Ok (opts', cmd') w' \<Rightarrow>
                     (case args cmd' of
                        None \<Rightarrow> Stop Segfault w'
                      | Some a \<Rightarrow>
                          parse_loop a (cmd_idx + 1) (cmds[cmd_idx + 1 := cmd']) opts' mem' w'))"
              unfolding P_def mem'_def using True Some sep ne idx by (intro parse_loop_sep) auto
            show ?thesis
            proof (cases P)
              case (Stop r w')
              with fp show ?thesis unfolding eq by simp
            next
              case (Ok x w')
              obtain opts' cmd' where x: "x = (opts', cmd')" by (cases x) auto
              from fp Ok have w': "w' = w" by simp
              show ?thesis
              proof (cases "args cmd'")
                case None
                then show ?thesis unfolding eq Ok x w' by simp
              next
                case a: (Some a)
                from parse_cmd_args_args [OF Ok [unfolded P_def x]] a have "arg_it + 1 \<le> a" by auto
                with True have "length mem' - a < length mem - arg_it" by (simp add: mem'_def)
                from less [OF this] a show ?thesis unfolding eq Ok x w' by simp
              qed
            qed
          qed
        qed
      qed
    qed
  qed
qed

lemma final_parse_argv: "final (parse_argv argv w) = w"
proof -
  define mem where "mem = map Some argv"
  define cmds where "cmds = replicate (fold (\<lambda>a n. if a = SEP then n + 1 else n) (drop 1 argv) (1::nat)) zero_cmd"
  define P where "P = parse_cmd_args \<lparr>signal_everything = False\<rparr> (cmds ! 0) 1 (length mem) mem w"
  have fp: "final P = w" unfolding P_def by (rule final_parse_cmd_args)
  have eq: "parse_argv argv w =
     (case P of
           Stop r w' \<Rightarrow> Stop r w'
         | Ok (opts', cmd') w' \<Rightarrow>
             (case args cmd' of
                None \<Rightarrow> Stop Segfault w'
              | Some a \<Rightarrow> parse_loop a 0 (cmds[0 := cmd']) opts' mem w'))"
    unfolding parse_argv_def Let_def mem_def cmds_def P_def by (rule refl)
  show ?thesis
  proof (cases P)
    case (Stop r w')
    with fp show ?thesis unfolding eq by simp
  next
    case (Ok x w')
    obtain opts' cmd' where x: "x = (opts', cmd')" by (cases x) auto
    from fp Ok have w': "w' = w" by simp
    show ?thesis
      unfolding eq Ok x w' using final_parse_loop by (cases "args cmd'") auto
  qed
qed

section \<open>The run of main\<close>

lemma main_cases:
  "snd (main argv evs w) = w \<or>
   main argv evs w = main_body (fst (parsed argv w)) (snd (parsed argv w)) evs w"
proof (cases "length argv = 1")
  case True
  then show ?thesis by (simp add: main_def)
next
  case False
  show ?thesis
  proof (cases "parse_argv argv w")
    case (Stop r w')
    with final_parse_argv [of argv w] False show ?thesis by (simp add: main_def)
  next
    case (Ok x w')
    obtain cmds opts mem where x: "x = (cmds, opts, mem)" by (cases x) auto
    from final_parse_argv [of argv w] Ok have "w' = w" by simp
    with Ok x False show ?thesis by (simp add: main_def parsed_def)
  qed
qed

lemma split_in_middle:
  assumes "pre @ x # post = X @ M @ R" "P x" "list_all (\<lambda>a. \<not> P a) R"
    "length (filter P X) \<le> length (filter P pre)"
  shows "\<exists>us vs. pre = X @ us \<and> M = us @ x # vs"
proof -
  from assms(1) obtain us where
    us: "pre = X @ us \<and> us @ x # post = M @ R \<or> pre @ us = X \<and> x # post = us @ M @ R"
    unfolding append_eq_append_conv2 by blast
  have inR: False if "x \<in> set R"
    using that assms(2,3) by (auto simp: list_all_iff)
  have tail: "\<exists>vs. M = us' @ x # vs" if "us' @ x # post = M @ R" for us'
  proof -
    from that obtain vs where
      vs: "us' = M @ vs \<and> vs @ x # post = R \<or> us' @ vs = M \<and> x # post = vs @ R"
      unfolding append_eq_append_conv2 by blast
    show ?thesis
    proof (cases "us' = M @ vs \<and> vs @ x # post = R")
      case True
      then have "x \<in> set R" by auto
      with inR show ?thesis by simp
    next
      case False
      with vs have v: "us' @ vs = M" "x # post = vs @ R" by simp_all
      show ?thesis
      proof (cases vs)
        case Nil
        with v(2) have "x \<in> set R" by (metis append_Nil list.set_intros(1))
        with inR show ?thesis by simp
      next
        case (Cons y ys)
        with v(2) have "y = x" by simp
        with v(1) Cons show ?thesis by auto
      qed
    qed
  qed
  show ?thesis
  proof (cases "pre = X @ us \<and> us @ x # post = M @ R")
    case True
    with tail [of us] show ?thesis by blast
  next
    case False
    with us have u: "pre @ us = X" "x # post = us @ M @ R" by simp_all
    show ?thesis
    proof (cases us)
      case Nil
      with u have "pre = X @ []" "[] @ x # post = M @ R" by simp_all
      with tail [of "[]"] show ?thesis by blast
    next
      case (Cons y ys)
      with u(2) have "y = x" by simp
      with u(1) Cons have "X = pre @ x # ys" by simp
      then have "length (filter P X) = length (filter P pre) + 1 + length (filter P ys)"
        using assms(2) by simp
      with assms(4) show ?thesis by simp
    qed
  qed
qed

lemma unique_split:
  "xs @ x # ys = xs' @ y # ys' \<Longrightarrow> P x \<Longrightarrow> list_all (\<lambda>a. \<not> P a) xs' \<Longrightarrow>
   list_all (\<lambda>a. \<not> P a) ys' \<Longrightarrow> xs = xs' \<and> x = y \<and> ys = ys'"
proof (induction xs arbitrary: xs')
  case Nil
  then show ?case by (cases xs') auto
next
  case (Cons u us)
  show ?case
  proof (cases xs')
    case Nil
    with Cons.prems have "x \<in> set ys'" by auto
    with Cons.prems(2,4) show ?thesis by (auto simp: list_all_iff)
  next
    case (Cons z zs)
    with Cons.prems Cons.IH [of zs] show ?thesis by auto
  qed
qed

lemma no_fork_wait: "list_all is_wait xs \<Longrightarrow> filter is_fork xs = []"
  by (induction xs) (auto simp: is_wait_def is_fork_def split: action.splits)

lemma no_fork_sigaction: "list_all is_sigaction xs \<Longrightarrow> filter is_fork xs = []"
  by (induction xs) (auto simp: is_sigaction_def is_fork_def split: action.splits)

lemma all_fork: "list_all is_fork xs \<Longrightarrow> filter is_fork xs = xs"
  by (induction xs) auto

lemma no_fork_shutdown: "filter is_fork (shutdown_calls opts r1 r2) = []"
  by (simp add: shutdown_calls_def)

lemma launch_nothing:
  "list_all (\<lambda>i. \<not> configuring (cmds ! i)) is \<Longrightarrow> launch_configuring is cmds n w = Ok (cmds, n) w"
  by (induction "is") auto

lemma configure_noop:
  assumes "configuring_args cmds [0..<length cmds] = []"
  shows "run_configure_cmds cmds evs w = Ok (cmds, evs) w"
proof -
  from assms have "list_all (\<lambda>i. \<not> configuring (cmds ! i)) [0..<length cmds]"
    by (simp add: configuring_args_def filter_empty_conv list_all_iff)
  from launch_nothing [OF this] show ?thesis by (simp add: run_configure_cmds_def)
qed

subsection \<open>The configure phase comes first\<close>

text \<open>
  Claim C6.  Take any launch in the log of a run that is not one of the launches of the
  configuring commands: at least as many launches precede it as there are configuring
  commands.  The log before it is then made of the installation of the handlers, the
  launches of all the configuring commands in the order of the command list, the waits
  of the drain, and launches of earlier non-configuring commands, in this order.  When
  there is a configuring command the drain is not empty and ends with the first answer
  that there is no child left; when there is none the drain is empty.  With no
  configuring command \<^verbatim>\<open>run_configure_cmds\<close> changes nothing: it launches nothing and
  makes no call of \<^verbatim>\<open>waitpid\<close>.
\<close>

theorem configure_before_main:
  assumes "log (snd (main argv evs w)) = log w @ pre @ Fork a p # post"
    and "cmds = fst (parsed argv w)"
    and "length (configuring_args cmds [0..<length cmds]) \<le> length (filter is_fork pre)"
  shows "(\<exists>S CF D MF. pre = S @ CF @ D @ MF \<and> list_all is_sigaction S \<and>
            list_all is_fork CF \<and> map fork_arg CF = configuring_args cmds [0..<length cmds] \<and>
            list_all is_wait D \<and>
            (if configuring_args cmds [0..<length cmds] = [] then D = []
             else D \<noteq> [] \<and> no_children (last D) \<and> list_all (\<lambda>a. \<not> no_children a) (butlast D)) \<and>
            list_all is_fork MF \<and>
            prefix (map fork_arg MF @ [a]) (main_args cmds [0..<length cmds]))
       \<and> (configuring_args cmds [0..<length cmds] = [] \<longrightarrow>
            (\<forall>es v. run_configure_cmds cmds es v = Ok (cmds, es) v))"
proof (rule conjI)
  define cfg where "cfg = configuring_args cmds [0..<length cmds]"
  define man where "man = main_args cmds [0..<length cmds]"
  define opts where "opts = snd (parsed argv w)"
  from assms(1) have "log (snd (main argv evs w)) \<noteq> log w" by simp
  with main_cases [of argv evs w] have m: "main argv evs w = main_body cmds opts evs w"
    unfolding assms(2) opts_def by auto
  from main_body_log [of cmds opts evs w, folded cfg_def man_def]
  obtain S CF D MF W B where d: "log (snd (main_body cmds opts evs w)) = log w @ S @ CF @ D @ MF @ W @ B \<and>
     list_all is_sigaction S \<and> list_all is_fork CF \<and> list_all is_wait D \<and>
     list_all is_fork MF \<and> list_all is_wait W \<and>
     prefix (map fork_arg CF) cfg \<and> prefix (map fork_arg MF) man \<and>
     (D \<noteq> [] \<or> MF \<noteq> [] \<or> W \<noteq> [] \<or> B \<noteq> [] \<longrightarrow> map fork_arg CF = cfg) \<and>
     (cfg = [] \<longrightarrow> D = []) \<and>
     (cfg \<noteq> [] \<and> (MF \<noteq> [] \<or> W \<noteq> [] \<or> B \<noteq> []) \<longrightarrow>
        D \<noteq> [] \<and> no_children (last D) \<and> list_all (\<lambda>a. \<not> no_children a) (butlast D)) \<and>
     (W \<noteq> [] \<or> B \<noteq> [] \<longrightarrow> map fork_arg MF = man) \<and>
     (B = [] \<or> (\<exists>r1 r2 D2. B = shutdown_calls opts r1 r2 @ D2 \<and> list_all is_wait D2))" by blast
  then have p: "list_all is_sigaction S" "list_all is_fork CF" "list_all is_wait D"
    "list_all is_fork MF" "list_all is_wait W" "prefix (map fork_arg CF) cfg"
    "prefix (map fork_arg MF) man" by blast+
  from d assms(1) m have eq: "pre @ Fork a p # post = (S @ CF @ D) @ MF @ (W @ B)" by simp
  have nfB: "filter is_fork B = []"
    using d by (auto simp: no_fork_shutdown no_fork_wait)
  have nfR: "list_all (\<lambda>a. \<not> is_fork a) (W @ B)"
    using no_fork_wait [OF p(5)] nfB by (auto simp: filter_empty_conv list_all_iff)
  have "filter is_fork (S @ CF @ D) = CF"
    using p(1,2,3) by (simp add: no_fork_sigaction no_fork_wait all_fork)
  moreover have "length CF \<le> length cfg"
    using p(6) prefix_length_le by fastforce
  ultimately have "length (filter is_fork (S @ CF @ D)) \<le> length (filter is_fork pre)"
    using assms(3) unfolding cfg_def by simp
  from split_in_middle [OF eq _ nfR this]
  obtain us vs where uv: "pre = (S @ CF @ D) @ us" "MF = us @ Fork a p # vs" by auto
  from uv(2) have ne: "MF \<noteq> []" by simp
  with d have full: "map fork_arg CF = cfg"
    "cfg \<noteq> [] \<longrightarrow> D \<noteq> [] \<and> no_children (last D) \<and> list_all (\<lambda>a. \<not> no_children a) (butlast D)"
    "cfg = [] \<longrightarrow> D = []" by blast+
  have us: "list_all is_fork us" using p(4) uv(2) by simp
  have "prefix (map fork_arg us @ [a]) (map fork_arg MF)" using uv(2) by simp
  with p(7) have pm: "prefix (map fork_arg us @ [a]) man" by (meson prefix_order.trans)
  have "pre = S @ CF @ D @ us \<and> list_all is_sigaction S \<and>
            list_all is_fork CF \<and> map fork_arg CF = cfg \<and> list_all is_wait D \<and>
            (if cfg = [] then D = []
             else D \<noteq> [] \<and> no_children (last D) \<and> list_all (\<lambda>a. \<not> no_children a) (butlast D)) \<and>
            list_all is_fork us \<and> prefix (map fork_arg us @ [a]) man"
    using uv(1) p(1,2,3) full us pm by simp
  then show "\<exists>S CF D MF. pre = S @ CF @ D @ MF \<and> list_all is_sigaction S \<and>
            list_all is_fork CF \<and> map fork_arg CF = configuring_args cmds [0..<length cmds] \<and>
            list_all is_wait D \<and>
            (if configuring_args cmds [0..<length cmds] = [] then D = []
             else D \<noteq> [] \<and> no_children (last D) \<and> list_all (\<lambda>a. \<not> no_children a) (butlast D)) \<and>
            list_all is_fork MF \<and>
            prefix (map fork_arg MF @ [a]) (main_args cmds [0..<length cmds])"
    unfolding cfg_def man_def by blast
next
  show "configuring_args cmds [0..<length cmds] = [] \<longrightarrow>
            (\<forall>es v. run_configure_cmds cmds es v = Ok (cmds, es) v)"
    using configure_noop by blast
qed

lemma run1_log: "log (snd (main argv1 evs1 sys)) =
  log sys @ (installs @ [Fork (Some 2) 10, Waitpid 10 0 EOTHER, Waitpid (- 1) 0 ECHILD]) @
    Fork (Some 5) 11 # [Fork (Some 7) 12, Waitpid 11 768 EOTHER, Sigaction SIGINT SIG_IGN 0,
        Sigaction SIGTERM SIG_IGN 0, Alarm 10, Kill 0 SIGTERM,
        Waitpid 12 0 EOTHER, Waitpid (- 1) 0 ECHILD]"
  by code_simp

lemma run1_cfg:
  "configuring_args (fst (parsed argv1 sys)) [0..<length (fst (parsed argv1 sys))] = [Some 2]"
  "main_args (fst (parsed argv1 sys)) [0..<length (fst (parsed argv1 sys))] = [Some 5, Some 7]"
  by code_simp+

theorem configure_before_main_witness:
  "\<exists>S CF D MF. installs @ [Fork (Some 2) 10, Waitpid 10 0 EOTHER, Waitpid (- 1) 0 ECHILD] = S @ CF @ D @ MF \<and>
     list_all is_sigaction S \<and> list_all is_fork CF \<and> map fork_arg CF = [Some 2] \<and>
     list_all is_wait D \<and> D \<noteq> [] \<and> no_children (last D) \<and>
     list_all (\<lambda>a. \<not> no_children a) (butlast D) \<and> list_all is_fork MF \<and>
     prefix (map fork_arg MF @ [Some 5]) [Some 5, Some 7]"
proof -
  have "length (configuring_args (fst (parsed argv1 sys)) [0..<length (fst (parsed argv1 sys))])
      \<le> length (filter is_fork (installs @ [Fork (Some 2) 10, Waitpid 10 0 EOTHER, Waitpid (- 1) 0 ECHILD]))"
    unfolding run1_cfg by (simp add: installs_def)
  from configure_before_main [OF run1_log refl this]
  show ?thesis unfolding run1_cfg by simp
qed

subsection \<open>The shutdown cascade\<close>

lemma is_kill_simps [simp]:
  "\<not> is_kill (Fork x p)" "\<not> is_kill (Waitpid q s e)" "\<not> is_kill (Sigaction sg h r)"
  "\<not> is_kill (Alarm n)" "is_kill (Kill t sg)" "\<not> is_kill (reap_action ev)"
  by (simp_all add: is_kill_def reap_action_def)

lemma no_kill_wait: "list_all is_wait xs \<Longrightarrow> list_all (\<lambda>a. \<not> is_kill a) xs"
  by (induction xs) (auto simp: is_wait_def is_kill_def split: action.splits)

lemma no_kill_fork: "list_all is_fork xs \<Longrightarrow> list_all (\<lambda>a. \<not> is_kill a) xs"
  by (induction xs) (auto simp: is_fork_def is_kill_def split: action.splits)

lemma no_kill_sigaction: "list_all is_sigaction xs \<Longrightarrow> list_all (\<lambda>a. \<not> is_kill a) xs"
  by (induction xs) (auto simp: is_sigaction_def is_kill_def split: action.splits)

text \<open>
  Claim C9.  In every run whose log holds a \<^verbatim>\<open>kill\<close>, the calls just before it are
  \<^verbatim>\<open>sigaction(SIGINT, SIG_IGN)\<close>, then \<^verbatim>\<open>sigaction(SIGTERM, SIG_IGN)\<close> (made unless
  the first call failed, line 157), then \<^verbatim>\<open>alarm\<close>; no \<^verbatim>\<open>kill\<close> comes earlier, and
  only waits come later.  The signal is \<^verbatim>\<open>SIGTERM\<close>, sent to the process group, or to
  every process when \<^verbatim>\<open>signal_everything\<close> is set.  When the two \<^verbatim>\<open>sigaction\<close>
  calls succeed, as they do for these signal numbers, both dispositions are
  \<^verbatim>\<open>SIG_IGN\<close> after \<^verbatim>\<open>remove_term_and_int_handlers\<close>.
\<close>

theorem handlers_removed_before_signal:
  assumes "log (snd (main argv evs w)) = log w @ pre @ Kill t s # post"
  shows "(\<exists>X r1 r2. pre = X @ Sigaction SIGINT SIG_IGN r1 #
              (if r1 = 0 then [Sigaction SIGTERM SIG_IGN r2] else []) @
              [Alarm WAIT_FOR_PROC_DEATH_TIMEOUT] \<and>
            list_all (\<lambda>a. \<not> is_kill a) X)
       \<and> s = SIGTERM \<and> t = (if signal_everything (snd (parsed argv w)) then - 1 else 0)
       \<and> list_all is_wait post
       \<and> (\<forall>v. sigaction_ret v SIGINT SIG_IGN = 0 \<and> sigaction_ret v SIGTERM SIG_IGN = 0 \<longrightarrow>
            handlers (remove_term_and_int_handlers v) SIGINT = SIG_IGN \<and>
            handlers (remove_term_and_int_handlers v) SIGTERM = SIG_IGN)"
proof -
  define cmds where "cmds = fst (parsed argv w)"
  define opts where "opts = snd (parsed argv w)"
  from assms have "log (snd (main argv evs w)) \<noteq> log w" by simp
  with main_cases [of argv evs w] have m: "main argv evs w = main_body cmds opts evs w"
    unfolding cmds_def opts_def by auto
  from main_body_log [of cmds opts evs w]
  obtain S CF D MF W B where d: "log (snd (main_body cmds opts evs w)) = log w @ S @ CF @ D @ MF @ W @ B"
     "list_all is_sigaction S" "list_all is_fork CF" "list_all is_wait D"
     "list_all is_fork MF" "list_all is_wait W"
     "B = [] \<or> (\<exists>r1 r2 D2. B = shutdown_calls opts r1 r2 @ D2 \<and> list_all is_wait D2)" by blast
  define A where "A = S @ CF @ D @ MF @ W"
  have nkA: "list_all (\<lambda>a. \<not> is_kill a) A"
    unfolding A_def
    using no_kill_sigaction [OF d(2)] no_kill_fork [OF d(3)] no_kill_wait [OF d(4)]
      no_kill_fork [OF d(5)] no_kill_wait [OF d(6)] by simp
  from d(1) assms m have eq: "pre @ Kill t s # post = A @ B" by (simp add: A_def)
  have "B \<noteq> []"
  proof
    assume "B = []"
    with eq have "Kill t s \<in> set A" by (metis append_Nil2 in_set_conv_decomp)
    with nkA show False by (auto simp: list_all_iff)
  qed
  with d(7) obtain r1 r2 D2 where B: "B = shutdown_calls opts r1 r2 @ D2" "list_all is_wait D2"
    by blast
  define T where "T = Sigaction SIGINT SIG_IGN r1 #
      (if r1 = 0 then [Sigaction SIGTERM SIG_IGN r2] else []) @ [Alarm WAIT_FOR_PROC_DEATH_TIMEOUT]"
  define t0 where "t0 = (if signal_everything opts then - 1 else (0::int))"
  have sc: "shutdown_calls opts r1 r2 = T @ [Kill t0 SIGTERM]"
    by (simp add: shutdown_calls_def T_def t0_def)
  have nkT: "list_all (\<lambda>a. \<not> is_kill a) (A @ T)"
    using nkA by (simp add: T_def)
  from eq B(1) sc have "pre @ Kill t s # post = (A @ T) @ Kill t0 SIGTERM # D2" by simp
  from unique_split [OF this, of is_kill] nkT no_kill_wait [OF B(2)]
  have u: "pre = A @ T" "Kill t s = Kill t0 SIGTERM" "post = D2" by simp_all
  have "\<exists>X r1 r2. pre = X @ Sigaction SIGINT SIG_IGN r1 #
              (if r1 = 0 then [Sigaction SIGTERM SIG_IGN r2] else []) @
              [Alarm WAIT_FOR_PROC_DEATH_TIMEOUT] \<and>
            list_all (\<lambda>a. \<not> is_kill a) X"
    using u(1) nkA unfolding T_def by blast
  moreover have "s = SIGTERM" "t = (if signal_everything (snd (parsed argv w)) then - 1 else 0)"
    using u(2) by (simp_all add: t0_def opts_def)
  moreover have "list_all is_wait post" using u(3) B(2) by simp
  moreover have "\<forall>v. sigaction_ret v SIGINT SIG_IGN = 0 \<and> sigaction_ret v SIGTERM SIG_IGN = 0 \<longrightarrow>
            handlers (remove_term_and_int_handlers v) SIGINT = SIG_IGN \<and>
            handlers (remove_term_and_int_handlers v) SIGTERM = SIG_IGN"
    by (simp add: remove_handlers)
  ultimately show ?thesis by blast
qed

lemma run1_log_kill: "log (snd (main argv1 evs1 sys)) =
  log sys @ (installs @ [Fork (Some 2) 10, Waitpid 10 0 EOTHER, Waitpid (- 1) 0 ECHILD,
        Fork (Some 5) 11, Fork (Some 7) 12, Waitpid 11 768 EOTHER, Sigaction SIGINT SIG_IGN 0,
        Sigaction SIGTERM SIG_IGN 0, Alarm 10]) @ Kill 0 SIGTERM #
        [Waitpid 12 0 EOTHER, Waitpid (- 1) 0 ECHILD]"
  by code_simp

theorem handlers_removed_before_signal_witness:
  "(\<exists>X r1 r2. installs @ [Fork (Some 2) 10, Waitpid 10 0 EOTHER, Waitpid (- 1) 0 ECHILD,
        Fork (Some 5) 11, Fork (Some 7) 12, Waitpid 11 768 EOTHER, Sigaction SIGINT SIG_IGN 0,
        Sigaction SIGTERM SIG_IGN 0, Alarm 10] =
       X @ Sigaction SIGINT SIG_IGN r1 # (if r1 = 0 then [Sigaction SIGTERM SIG_IGN r2] else []) @
         [Alarm WAIT_FOR_PROC_DEATH_TIMEOUT] \<and> list_all (\<lambda>a. \<not> is_kill a) X)
   \<and> handlers (remove_term_and_int_handlers sys) SIGINT = SIG_IGN
   \<and> handlers (remove_term_and_int_handlers sys) SIGTERM = SIG_IGN"
proof -
  have "sigaction_ret sys SIGINT SIG_IGN = 0 \<and> sigaction_ret sys SIGTERM SIG_IGN = 0"
    by (simp add: sys_def start_def)
  with handlers_removed_before_signal [OF run1_log_kill] show ?thesis by blast
qed

subsection \<open>A signal before the main phase\<close>

text \<open>
  Claim C3.  When \<^verbatim>\<open>running\<close> is false at line 297, \<^verbatim>\<open>main\<close> returns the variable
  \<^verbatim>\<open>error_code\<close>, which no statement on that path has assigned: the value returned
  is indeterminate (\<open>Return None\<close>), not \<open>0\<close>.  The log of such a run is the
  installation of the handlers, the launches of the configuring commands and the
  configure drain, which is empty when no command is configuring and otherwise ends
  with its first \<^verbatim>\<open>ECHILD\<close> answer, and nothing after it: no other command is launched,
  the supervision loop and the final drain make no call, no handler is removed, no
  alarm is armed and no signal is sent.
\<close>

theorem unassigned_exit_code:
  assumes "map_option running (line_297 argv evs w) = Some False"
    and "cmds = fst (parsed argv w)"
  shows "fst (main argv evs w) = Return None \<and>
     (\<exists>CF D. log (snd (main argv evs w)) = log w @ installs @ CF @ D \<and>
        list_all is_fork CF \<and> map fork_arg CF = configuring_args cmds [0..<length cmds] \<and>
        list_all is_wait D \<and>
        (configuring_args cmds [0..<length cmds] = [] \<longrightarrow> D = []) \<and>
        (configuring_args cmds [0..<length cmds] \<noteq> [] \<longrightarrow>
           D \<noteq> [] \<and> no_children (last D) \<and> list_all (\<lambda>a. \<not> no_children a) (butlast D)))"
proof -
  from assms(1) have argc: "length argv \<noteq> 1"
    by (auto simp: line_297_def split: if_splits)
  from assms(1) argc obtain cs opts mem w' where p: "parse_argv argv w = Ok (cs, opts, mem) w'"
    by (auto simp: line_297_def split: res.splits)
  from final_parse_argv [of argv w] p have w': "w' = w" by simp
  from p assms(2) have cs: "cs = cmds" by (simp add: parsed_def)
  from assms(1) argc p w' cs obtain x w1 where su: "main_setup cmds evs w = Ok x w1" "\<not> running w1"
    by (auto simp: line_297_def split: res.splits)
  obtain cmds1 ws evs' where x: "x = (cmds1, ws, evs')" by (cases x) auto
  have m: "main argv evs w = (Return None, w1)"
    using argc p w' cs su x by (simp add: main_def main_body_def)
  define cfg where "cfg = configuring_args cmds [0..<length cmds]"
  from main_setup_log [of cmds evs w, folded cfg_def]
  obtain S CF D where l: "log (final (main_setup cmds evs w)) = log w @ S @ CF @ D"
     "list_all is_fork CF" "list_all is_wait D" "cfg = [] \<longrightarrow> D = []"
     "\<forall>cmds1 ws evs' w1. main_setup cmds evs w = Ok (cmds1, ws, evs') w1 \<longrightarrow>
        S = installs \<and> map fork_arg CF = cfg \<and>
        (cfg \<noteq> [] \<longrightarrow> D \<noteq> [] \<and> no_children (last D) \<and> list_all (\<lambda>a. \<not> no_children a) (butlast D))"
    by blast
  from l(5) su(1) x have "S = installs" "map fork_arg CF = cfg"
    "cfg \<noteq> [] \<longrightarrow> D \<noteq> [] \<and> no_children (last D) \<and> list_all (\<lambda>a. \<not> no_children a) (butlast D)"
    by blast+
  with l(1,2,3,4) su(1) m show ?thesis unfolding cfg_def [symmetric]
    by (intro conjI exI [of _ CF] exI [of _ D]) simp_all
qed

lemma run2: "map_option running (line_297 argv2 evs2 sys) = Some False"
  "configuring_args (fst (parsed argv2 sys)) [0..<length (fst (parsed argv2 sys))] = [Some 2]"
  "log sys = []"
  "log (snd (main argv2 evs2 sys)) =
     installs @ [Fork (Some 2) 10, Waitpid 10 0 EOTHER, Waitpid (- 1) 0 ECHILD]"
  "map_option running (line_297 argv3 evs3 (sys\<lparr>sigs_at_start := [SIGTERM]\<rparr>)) = Some False"
  "configuring_args (fst (parsed argv3 (sys\<lparr>sigs_at_start := [SIGTERM]\<rparr>)))
     [0..<length (fst (parsed argv3 (sys\<lparr>sigs_at_start := [SIGTERM]\<rparr>)))] = []"
  "log (sys\<lparr>sigs_at_start := [SIGTERM]\<rparr>) = []"
  by code_simp+

theorem unassigned_exit_code_witness:
  "fst (main argv2 evs2 sys) = Return None
   \<and> log (snd (main argv2 evs2 sys)) =
       installs @ [Fork (Some 2) 10, Waitpid 10 0 EOTHER, Waitpid (- 1) 0 ECHILD]
   \<and> fst (main argv3 evs3 (sys\<lparr>sigs_at_start := [SIGTERM]\<rparr>)) = Return None
   \<and> log (snd (main argv3 evs3 (sys\<lparr>sigs_at_start := [SIGTERM]\<rparr>))) = installs"
proof -
  from unassigned_exit_code [OF run2(5) refl]
  obtain CF D where "fst (main argv3 evs3 (sys\<lparr>sigs_at_start := [SIGTERM]\<rparr>)) = Return None"
    "log (snd (main argv3 evs3 (sys\<lparr>sigs_at_start := [SIGTERM]\<rparr>))) = installs @ CF @ D"
    "map fork_arg CF = []" "D = []"
    unfolding run2 by auto
  moreover from unassigned_exit_code [OF run2(1) refl]
  have "fst (main argv2 evs2 sys) = Return None" by simp
  ultimately show ?thesis using run2(4) by simp
qed

subsection \<open>The alarm\<close>

text \<open>
  Once the drain has begun, an alarm ends the process with the code given to
  \<^verbatim>\<open>wait_for_all_processes_to_exit\<close>.
\<close>

lemma alarm_first:
  assumes "handlers w SIGALRM = Handler_on_alarm" "arrives_first SIGALRM e"
  shows "\<exists>w'. reap_all (e # es) w = Stop (Exit (alarm_exit_code w)) w'"
proof (cases "sigs_before e")
  case (Cons x xs)
  with assms show ?thesis
    by (simp add: arrives_first_def deliver_def on_alarm_def)
next
  case Nil
  with assms(2) obtain xs where d: "sigs_during e = SIGALRM # xs"
    by (auto simp: arrives_first_def split: list.splits)
  with Nil assms(1) show ?thesis
    by (simp add: waitpid_def deliver_def on_alarm_def emit_def)
qed

lemma alarm_during_drain:
  assumes "handlers w SIGALRM = Handler_on_alarm" "list_all quiet pre"
    "list_all (\<lambda>e. \<not> (w_pid e = - 1 \<and> w_errno e = ECHILD)) pre" "arrives_first SIGALRM e"
  shows "\<exists>w'. wait_for_all_processes_to_exit code (pre @ e # es) w = Stop (Exit code) w'"
proof -
  have "\<exists>w'. reap_all (pre @ e # es) v = Stop (Exit (alarm_exit_code v)) w'"
    if "handlers v SIGALRM = Handler_on_alarm" for v
    using assms(2,3) that
  proof (induction pre arbitrary: v)
    case Nil
    with alarm_first [OF _ assms(4)] show ?case by simp
  next
    case (Cons x xs)
    have "handlers (emit (reap_action x) v) SIGALRM = Handler_on_alarm"
      "alarm_exit_code (emit (reap_action x) v) = alarm_exit_code v"
      using Cons.prems(3) by (simp_all add: emit_def)
    with Cons.IH [of "emit (reap_action x) v"] Cons.prems show ?case by auto
  qed
  from this [of "w\<lparr>alarm_exit_code := code\<rparr>"] assms(1) show ?thesis
    by (simp add: wait_for_all_processes_to_exit_def)
qed

text \<open>
  Claim C4 does not hold for every moment at which the alarm can fire.  Line 301 arms
  the alarm and only line 102, inside \<^verbatim>\<open>wait_for_all_processes_to_exit\<close>, stores the
  exit code for the handler.  One command is run and exits with status 2.  When
  \<^verbatim>\<open>SIGALRM\<close> is delivered between these two lines the process exits with status 0,
  the initial value of \<^verbatim>\<open>alarm_exit_code\<close>, and not with 2; delivered during the drain
  it exits with 2, and with no alarm \<^verbatim>\<open>main\<close> returns 2.
\<close>

theorem alarm_before_store:
  "fst (main argv3 evs3 (sys\<lparr>sigs_after_arm := [SIGALRM]\<rparr>)) = Exit 0
   \<and> fst (main argv3 evs3 sys) = Return (Some 2)
   \<and> fst (main argv3 [exit_ev 10 2, no_child\<lparr>sigs_before := [SIGALRM]\<rparr>] sys) = Exit 2
   \<and> log (snd (main argv3 evs3 (sys\<lparr>sigs_after_arm := [SIGALRM]\<rparr>))) =
       installs @ [Fork (Some 1) 10, Waitpid 10 512 EOTHER, Sigaction SIGINT SIG_IGN 0,
         Sigaction SIGTERM SIG_IGN 0, Alarm 10, Kill 0 SIGTERM]"
  by code_simp

section \<open>Usage errors\<close>

lemma getopt_scan_consumed: "snd (getopt_scan os xs) \<le> length xs"
  by (induction os xs rule: getopt_scan.induct) (auto split: prod.splits)

lemma getopt_bound:
  assumes "getopt argc argv = (cs, optind)" "1 \<le> argc"
  shows "optind \<le> argc"
proof -
  have "snd (getopt_scan ''acf'' (take (argc - 1) (drop 1 argv))) \<le> argc - 1"
    using getopt_scan_consumed [of "''acf''" "take (argc - 1) (drop 1 argv)"] by simp
  with assms show ?thesis by (auto simp: getopt_def split: prod.splits)
qed

lemma handle_opts_Stop: "handle_opts cs opts cmd w = Stop r w' \<Longrightarrow> r = Exit 1 \<and> w' = w"
  by (induction cs opts cmd w rule: handle_opts.induct) (auto split: if_splits)

lemma parse_cmd_args_Stop:
  "parse_cmd_args opts cmd arg_it args_end mem w = Stop r w' \<Longrightarrow> r = Exit 1 \<and> w' = w"
  by (auto simp: parse_cmd_args_def split: prod.splits res.splits if_splits
      dest: handle_opts_Stop handle_opts_args)

lemma parse_cmd_args_bound:
  assumes "parse_cmd_args opts cmd arg_it args_end mem w = Ok (opts', cmd') w'" "arg_it < args_end"
  shows "\<exists>a. args cmd' = Some a \<and> arg_it \<le> a \<and> a < args_end \<and> w' = w"
proof -
  obtain cs optind where g: "getopt (args_end - arg_it) (drop (arg_it - 1) mem) = (cs, optind)"
    by force
  from getopt_bound [OF g] getopt_optind [OF g] assms(2)
  have b: "1 \<le> optind" "optind \<le> args_end - arg_it" by simp_all
  from assms(1) have "args cmd' = Some (arg_it + optind - 1) \<and> w' = w"
    unfolding parse_cmd_args_def g
    by (auto split: res.splits if_splits dest: handle_opts_args)
  with b assms(2) show ?thesis by auto
qed

lemma seps_drop_mono: "i \<le> j \<Longrightarrow> seps (drop j xs) \<le> seps (drop i xs)"
proof -
  assume "i \<le> j"
  then have "drop i xs = take (j - i) (drop i xs) @ drop j xs"
    by (metis add_diff_cancel_left' append_take_drop_id drop_drop le_Suc_ex add.commute)
  then have "seps (drop i xs) = seps (take (j - i) (drop i xs)) + seps (drop j xs)"
    unfolding seps_def by (metis filter_append length_append)
  then show ?thesis by simp
qed

lemma seps_drop_Suc:
  "i < length xs \<Longrightarrow> xs ! i = Some SEP \<Longrightarrow> seps (drop i xs) = Suc (seps (drop (Suc i) xs))"
  by (simp add: seps_def Cons_nth_drop_Suc [symmetric])

lemma seps_drop_update: "i < j \<Longrightarrow> seps (drop j (xs[i := v])) = seps (drop j xs)"
  by (simp add: seps_def drop_update_cancel)

text \<open>
  A command line that ends with a separator: the loop finds no null pointer and
  stays within \<^verbatim>\<open>cmds\<close> until it reaches the last word.
\<close>

lemma parse_loop_trailing_sep:
  assumes "arg_it < length mem" "mem ! (length mem - 1) = Some SEP"
    "\<forall>j. arg_it \<le> j \<and> j < length mem \<longrightarrow> mem ! j \<noteq> None"
    "cmd_idx + 1 + seps (drop arg_it mem) \<le> length cmds"
  shows "parse_loop arg_it cmd_idx cmds opts mem w = Stop (Exit 1) w"
  using assms
proof (induction "length mem - arg_it" arbitrary: arg_it cmd_idx cmds opts mem rule: less_induct)
  case less
  note lt = less.prems(1) and lst = less.prems(2) and nn = less.prems(3) and cnt = less.prems(4)
  from nn lt obtain s where s: "mem ! arg_it = Some s" by (cases "mem ! arg_it") auto
  show ?case
  proof (cases "s = SEP")
    case False
    with lst s have "arg_it \<noteq> length mem - 1" by auto
    with lt have lt': "arg_it + 1 < length mem" by simp
    have m: "length mem - (arg_it + 1) < length mem - arg_it" using lt by simp
    have c: "cmd_idx + 1 + seps (drop (arg_it + 1) mem) \<le> length cmds"
      using cnt seps_drop_mono [of arg_it "arg_it + 1" mem] by simp
    have n: "\<forall>j. arg_it + 1 \<le> j \<and> j < length mem \<longrightarrow> mem ! j \<noteq> None" using nn by simp
    from less.hyps [OF m lt' lst n c] parse_loop_word [OF lt s False] show ?thesis by simp
  next
    case sep: True
    show ?thesis
    proof (cases "arg_it + 1 = length mem")
      case True
      with lt s sep show ?thesis by (simp add: parse_loop_last_sep)
    next
      case ne: False
      with lt have lt': "arg_it + 1 < length mem" by simp
      from seps_drop_Suc [OF lt] s sep
      have sd: "seps (drop arg_it mem) = Suc (seps (drop (Suc arg_it) mem))" by simp
      with cnt have idx: "cmd_idx + 1 < length cmds" by simp
      define mem' where "mem' = mem[arg_it := None]"
      define P where "P = parse_cmd_args opts (cmds ! (cmd_idx + 1)) (arg_it + 1) (length mem) mem' w"
      have eq: "parse_loop arg_it cmd_idx cmds opts mem w =
          (case P of
             Stop r w' \<Rightarrow> Stop r w'
           | Ok (opts', cmd') w' \<Rightarrow>
               (case args cmd' of
                  None \<Rightarrow> Stop Segfault w'
                | Some a \<Rightarrow>
                    parse_loop a (cmd_idx + 1) (cmds[cmd_idx + 1 := cmd']) opts' mem' w'))"
        unfolding P_def mem'_def using lt s sep ne idx by (intro parse_loop_sep) auto
      show ?thesis
      proof (cases P)
        case (Stop r w')
        from parse_cmd_args_Stop [OF Stop [unfolded P_def]] Stop show ?thesis unfolding eq by simp
      next
        case (Ok x w')
        obtain opts' cmd' where x: "x = (opts', cmd')" by (cases x) auto
        from parse_cmd_args_bound [OF Ok [unfolded P_def x] lt']
        obtain a where a: "args cmd' = Some a" "arg_it + 1 \<le> a" "a < length mem" "w' = w" by blast
        have len: "length mem' = length mem" by (simp add: mem'_def)
        have m: "length mem' - a < length mem - arg_it" using a lt by (simp add: len)
        have l': "mem' ! (length mem' - 1) = Some SEP"
          using lst lt' by (simp add: mem'_def len)
        have n: "\<forall>j. a \<le> j \<and> j < length mem' \<longrightarrow> mem' ! j \<noteq> None"
          using nn a(2) by (simp add: mem'_def)
        have "seps (drop a mem') = seps (drop a mem)"
          unfolding mem'_def using a(2) by (intro seps_drop_update) simp
        also have "\<dots> \<le> seps (drop (Suc arg_it) mem)"
          using a(2) by (intro seps_drop_mono) simp
        finally have c: "(cmd_idx + 1) + 1 + seps (drop a mem') \<le> length (cmds[cmd_idx + 1 := cmd'])"
          using cnt sd by simp
        have a': "a < length mem'" using a(3) len by simp
        from less.hyps [OF m a' l' n c, of opts'] a(1,4) show ?thesis unfolding eq Ok x by simp
      qed
    qed
  qed
qed

lemma fold_count_sep:
  "fold (\<lambda>a n. if a = SEP then n + 1 else n) xs (k::nat) = k + length (filter (\<lambda>a. a = SEP) xs)"
  by (induction xs arbitrary: k) auto

lemma seps_map_Some: "seps (map Some xs) = length (filter (\<lambda>a. a = SEP) xs)"
  by (induction xs) (auto simp: seps_def)

lemma n_cmds_seps:
  "fold (\<lambda>a n. if a = SEP then n + 1 else n) (drop 1 argv) (1::nat) = 1 + seps (drop 1 (map Some argv))"
  by (simp add: fold_count_sep seps_map_Some drop_map)

lemma parse_argv_trailing_sep:
  assumes "2 \<le> length argv" "last argv = SEP"
  shows "parse_argv argv w = Stop (Exit 1) w"
proof -
  define mem where "mem = map Some argv"
  define cmds where "cmds = replicate (fold (\<lambda>a n. if a = SEP then n + 1 else n) (drop 1 argv) (1::nat)) zero_cmd"
  define P where "P = parse_cmd_args \<lparr>signal_everything = False\<rparr> (cmds ! 0) 1 (length mem) mem w"
  have eq: "parse_argv argv w =
     (case P of
           Stop r w' \<Rightarrow> Stop r w'
         | Ok (opts', cmd') w' \<Rightarrow>
             (case args cmd' of
                None \<Rightarrow> Stop Segfault w'
              | Some a \<Rightarrow> parse_loop a 0 (cmds[0 := cmd']) opts' mem w'))"
    unfolding parse_argv_def Let_def mem_def cmds_def P_def by (rule refl)
  have len: "length cmds = 1 + seps (drop 1 mem)"
    unfolding cmds_def mem_def by (simp only: length_replicate n_cmds_seps)
  from assms(1) have ne: "argv \<noteq> []" by auto
  have lm: "1 < length mem" using assms(1) by (simp add: mem_def)
  have lst: "mem ! (length mem - 1) = Some SEP"
    using assms ne by (simp add: mem_def last_conv_nth)
  have nn: "\<forall>j. j < length mem \<longrightarrow> mem ! j \<noteq> None" by (simp add: mem_def)
  show ?thesis
  proof (cases P)
    case (Stop r w')
    from parse_cmd_args_Stop [OF Stop [unfolded P_def]] Stop show ?thesis unfolding eq by simp
  next
    case (Ok x w')
    obtain opts' cmd' where x: "x = (opts', cmd')" by (cases x) auto
    from parse_cmd_args_bound [OF Ok [unfolded P_def x] lm]
    obtain a where a: "args cmd' = Some a" "1 \<le> a" "a < length mem" "w' = w" by blast
    have c: "0 + 1 + seps (drop a mem) \<le> length (cmds[0 := cmd'])"
      using seps_drop_mono [OF a(2), of mem] len by simp
    have n: "\<forall>j. a \<le> j \<and> j < length mem \<longrightarrow> mem ! j \<noteq> None" using nn by simp
    from parse_loop_trailing_sep [OF a(3) lst n c, of opts' w] a(1,4)
    show ?thesis unfolding eq Ok x by simp
  qed
qed

text \<open>The options of a group, as \<^verbatim>\<open>getopt\<close> reads them.\<close>

lemma nonoption_dashes: "\<not> nonoption ''--''" "\<not> nonoption SEP"
  by (simp_all add: nonoption_def SEP_def)

lemma getopt_scan_flags:
  assumes "list_all flag_word fl" "ws \<noteq> []" "nonoption (hd ws)"
  shows "getopt_scan ''acf'' (take (length (fl @ ws) - 1) (map Some (fl @ ws))) =
    (opt_chars fl, length fl)"
  using assms(1)
proof (induction fl)
  case Nil
  from assms(2) obtain x xs where ws: "ws = x # xs" by (cases ws) auto
  with assms(3) nonoption_dashes(1) have "nonoption x" "x \<noteq> ''--''" by auto
  then show ?case by (cases xs) (simp_all add: ws opt_chars_def)
next
  case (Cons f fl)
  from Cons.prems have ff: "flag_word f" and fl: "list_all flag_word fl" by simp_all
  from ff have f: "\<not> nonoption f" "f \<noteq> ''--''" by (simp_all add: flag_word_def)
  have "0 < length (fl @ ws)" using assms(2) by simp
  then have "take (length ((f # fl) @ ws) - 1) (map Some ((f # fl) @ ws)) =
      Some f # take (length (fl @ ws) - 1) (map Some (fl @ ws))"
    by (simp add: take_Cons')
  with Cons.IH [OF fl] f show ?case by (simp add: opt_chars_def)
qed

lemma getopt_group:
  assumes "list_all flag_word fl" "ws \<noteq> []" "nonoption (hd ws)" "pre \<noteq> []"
    "mem = pre @ map Some (fl @ ws)"
  shows "getopt (length mem - length pre) (drop (length pre - 1) mem) = (opt_chars fl, 1 + length fl)"
proof -
  have "drop 1 (drop (length pre - 1) mem) = map Some (fl @ ws)"
    using assms(4,5) by simp
  moreover have "length mem - length pre = length (fl @ ws)" using assms(5) by simp
  ultimately show ?thesis
    unfolding getopt_def using getopt_scan_flags [OF assms(1-3)] by simp
qed

lemma opt_chars_mem:
  "c \<in> set ''acf'' \<Longrightarrow> c \<in> set (opt_chars fl) \<longleftrightarrow> c \<in> set (concat (map tl fl))"
  by (auto simp: opt_chars_def)

lemma handle_opts_exit:
  "CHR ''a'' \<in> set cs \<Longrightarrow> getpid_ret w \<noteq> 1 \<Longrightarrow> handle_opts cs opts cmd w = Stop (Exit 1) w"
  by (induction cs opts cmd w rule: handle_opts.induct) auto

lemma handle_opts_flags:
  "handle_opts cs opts cmd w = Ok (opts', cmd') w' \<Longrightarrow>
     (CHR ''c'' \<in> set cs \<longrightarrow> configuring cmd') \<and> (configuring cmd \<longrightarrow> configuring cmd') \<and>
     (CHR ''f'' \<in> set cs \<longrightarrow> watch cmd') \<and> (watch cmd \<longrightarrow> watch cmd')"
  by (induction cs opts cmd w rule: handle_opts.induct) (auto split: if_splits)

lemma parse_cmd_args_group:
  assumes "wf_group g" "pre \<noteq> []" "mem = pre @ map Some (fst g @ snd g @ rest)"
  shows "usage_error (getpid_ret w) g \<Longrightarrow>
      parse_cmd_args opts cmd (length pre) (length mem) mem w = Stop (Exit 1) w"
    and "parse_cmd_args opts cmd (length pre) (length mem) mem w = Ok (opts', cmd') w' \<Longrightarrow>
      args cmd' = Some (length pre + length (fst g)) \<and> w' = w"
proof -
  from assms(1) have wf: "list_all flag_word (fst g)" "snd g @ rest \<noteq> []" "nonoption (hd (snd g @ rest))"
    by (simp_all add: wf_group_def)
  note g = getopt_group [OF wf assms(2,3)]
  {
    assume u: "usage_error (getpid_ret w) g"
    show "parse_cmd_args opts cmd (length pre) (length mem) mem w = Stop (Exit 1) w"
    proof (cases "handle_opts (opt_chars (fst g)) opts cmd w")
      case (Stop r w')
      from handle_opts_Stop [OF Stop] Stop show ?thesis
        unfolding parse_cmd_args_def g by simp
    next
      case (Ok x w')
      obtain o' c' where x: "x = (o', c')" by (cases x) auto
      from handle_opts_args [OF Ok [unfolded x]] have w': "w' = w" by simp
      have "\<not> (CHR ''a'' \<in> set (opt_chars (fst g)) \<and> getpid_ret w \<noteq> 1)"
        using handle_opts_exit [of "opt_chars (fst g)" w opts cmd] Ok by auto
      with u have "CHR ''c'' \<in> set (opt_chars (fst g))" "CHR ''f'' \<in> set (opt_chars (fst g))"
        by (auto simp: usage_error_def has_flag_def opt_chars_mem)
      with handle_opts_flags [OF Ok [unfolded x]] have "configuring c' \<and> watch c'" by simp
      with Ok x w' show ?thesis unfolding parse_cmd_args_def g by simp
    qed
  }
  {
    assume "parse_cmd_args opts cmd (length pre) (length mem) mem w = Ok (opts', cmd') w'"
    then show "args cmd' = Some (length pre + length (fst g)) \<and> w' = w"
      unfolding parse_cmd_args_def g
      by (auto split: res.splits if_splits dest: handle_opts_args)
  }
qed

lemma parse_loop_words:
  assumes "SEP \<notin> set ws"
  shows "parse_loop (length pre) cmd_idx cmds opts (pre @ map Some ws @ rest) w =
    parse_loop (length pre + length ws) cmd_idx cmds opts (pre @ map Some ws @ rest) w"
  using assms
proof (induction ws arbitrary: pre)
  case Nil
  show ?case by simp
next
  case (Cons x xs)
  have "parse_loop (length pre) cmd_idx cmds opts (pre @ map Some (x # xs) @ rest) w =
      parse_loop (length pre + 1) cmd_idx cmds opts (pre @ map Some (x # xs) @ rest) w"
    using Cons.prems by (intro parse_loop_word [of _ _ x]) auto
  also have "\<dots> = parse_loop (length (pre @ [Some x]) + length xs) cmd_idx cmds opts
      ((pre @ [Some x]) @ map Some xs @ rest) w"
    using Cons.IH [of "pre @ [Some x]"] Cons.prems by simp
  finally show ?case by simp
qed

lemma command_line_Cons:
  "gs \<noteq> [] \<Longrightarrow> command_line (g # gs) = fst g @ snd g @ SEP # command_line gs"
  by (cases gs) simp_all

lemma command_line_Nil: "list_all wf_group gs \<Longrightarrow> gs \<noteq> [] \<Longrightarrow> command_line gs \<noteq> []"
  by (cases gs rule: command_line.cases) (auto simp: wf_group_def)

lemma count_groups: "length gs \<le> 1 + length (filter (\<lambda>a. a = SEP) (command_line gs))"
  by (induction gs rule: command_line.induct) auto

lemma parse_loop_groups:
  assumes "list_all wf_group gs" "list_ex (usage_error (getpid_ret w)) gs" "SEP \<notin> set ws"
    "cmd_idx + length gs < length cmds"
  shows "parse_loop (length pre) cmd_idx cmds opts (pre @ map Some (ws @ SEP # command_line gs)) w =
    Stop (Exit 1) w"
  using assms
proof (induction gs arbitrary: pre ws cmd_idx cmds opts)
  case Nil
  then show ?case by simp
next
  case (Cons g gs)
  from Cons.prems(1) have wf: "wf_group g" and wfs: "list_all wf_group gs" by simp_all
  define rest where "rest = (if gs = [] then [] else SEP # command_line gs)"
  have cl: "command_line (g # gs) = fst g @ snd g @ rest"
    unfolding rest_def by (cases gs) simp_all
  define j where "j = length pre + length ws"
  define mem where "mem = pre @ map Some (ws @ SEP # command_line (g # gs))"
  define pre' where "pre' = pre @ map Some ws @ [None]"
  define mem' where "mem' = mem[j := None]"
  have mem1: "mem = pre @ map Some ws @ map Some (SEP # command_line (g # gs))"
    by (simp add: mem_def)
  have mem2: "mem = (pre @ map Some ws) @ Some SEP # map Some (fst g @ snd g @ rest)"
    by (simp add: mem_def cl)
  have j: "j = length (pre @ map Some ws)" by (simp add: j_def)
  have mem': "mem' = pre' @ map Some (fst g @ snd g @ rest)"
    unfolding mem'_def mem2 j list_update_length pre'_def by simp
  have lp: "length pre' = j + 1" by (simp add: pre'_def j_def)
  have lm: "length mem' = length mem" by (simp add: mem'_def)
  have ne: "snd g \<noteq> []" using wf by (simp add: wf_group_def)
  have jlt: "j < length mem" by (simp add: mem2 j)
  have sj: "mem ! j = Some SEP" unfolding mem2 j by (simp only: nth_append_length)
  have jne: "j + 1 \<noteq> length mem" using ne by (simp add: mem2 j)
  have idx: "cmd_idx + 1 < length cmds" using Cons.prems(4) by simp
  define P where "P = parse_cmd_args opts (cmds ! (cmd_idx + 1)) (j + 1) (length mem) mem' w"
  have skip: "parse_loop (length pre) cmd_idx cmds opts mem w = parse_loop j cmd_idx cmds opts mem w"
    unfolding mem1 j_def using Cons.prems(3) by (rule parse_loop_words)
  have eq: "parse_loop j cmd_idx cmds opts mem w =
      (case P of
         Stop r w' \<Rightarrow> Stop r w'
       | Ok (opts', cmd') w' \<Rightarrow>
           (case args cmd' of
              None \<Rightarrow> Stop Segfault w'
            | Some a \<Rightarrow>
                parse_loop a (cmd_idx + 1) (cmds[cmd_idx + 1 := cmd']) opts' mem' w'))"
    unfolding P_def mem'_def using jlt sj jne idx by (intro parse_loop_sep) auto
  have pne: "pre' \<noteq> []" by (simp add: pre'_def)
  have P: "P = parse_cmd_args opts (cmds ! (cmd_idx + 1)) (length pre') (length mem') mem' w"
    by (simp add: P_def lp lm)
  have "parse_loop j cmd_idx cmds opts mem w = Stop (Exit 1) w"
  proof (cases "usage_error (getpid_ret w) g")
    case True
    from parse_cmd_args_group(1) [OF wf pne mem' True] P show ?thesis unfolding eq by simp
  next
    case False
    with Cons.prems(2) have ex: "list_ex (usage_error (getpid_ret w)) gs" by simp
    then have gs: "gs \<noteq> []" by auto
    show ?thesis
    proof (cases P)
      case (Stop r w')
      from parse_cmd_args_Stop [OF Stop [unfolded P_def]] Stop show ?thesis unfolding eq by simp
    next
      case (Ok x w')
      obtain opts' cmd' where x: "x = (opts', cmd')" by (cases x) auto
      from parse_cmd_args_group(2) [OF wf pne mem' Ok [unfolded P x]]
      have a: "args cmd' = Some (length pre' + length (fst g))" and w': "w' = w" by simp_all
      have m3: "mem' = (pre' @ map Some (fst g)) @ map Some (snd g @ SEP # command_line gs)"
        using gs by (simp add: mem' rest_def)
      have s: "SEP \<notin> set (snd g)" using wf by (simp add: wf_group_def)
      have c: "(cmd_idx + 1) + length gs < length (cmds[cmd_idx + 1 := cmd'])"
        using Cons.prems(4) by simp
      from Cons.IH [OF wfs ex s c, of "pre' @ map Some (fst g)" opts']
      have "parse_loop (length pre' + length (fst g)) (cmd_idx + 1) (cmds[cmd_idx + 1 := cmd']) opts'
          mem' w = Stop (Exit 1) w"
        unfolding m3 by simp
      with a w' show ?thesis unfolding eq Ok x by simp
    qed
  qed
  with skip show ?case unfolding mem_def by simp
qed

lemma parse_argv_groups:
  assumes "list_all wf_group gs" "list_ex (usage_error (getpid_ret w)) gs"
  shows "parse_argv (prog # command_line gs) w = Stop (Exit 1) w"
proof -
  from assms(2) obtain g gs' where gs: "gs = g # gs'" by (cases gs) auto
  from assms(1) gs have wf: "wf_group g" and wfs: "list_all wf_group gs'" by simp_all
  define argv where "argv = prog # command_line gs"
  define rest where "rest = (if gs' = [] then [] else SEP # command_line gs')"
  have cl: "command_line gs = fst g @ snd g @ rest"
    unfolding rest_def gs by (cases gs') simp_all
  define mem where "mem = map Some argv"
  define cmds where "cmds = replicate (fold (\<lambda>a n. if a = SEP then n + 1 else n) (drop 1 argv) (1::nat)) zero_cmd"
  define P where "P = parse_cmd_args \<lparr>signal_everything = False\<rparr> (cmds ! 0) 1 (length mem) mem w"
  have eq: "parse_argv argv w =
     (case P of
           Stop r w' \<Rightarrow> Stop r w'
         | Ok (opts', cmd') w' \<Rightarrow>
             (case args cmd' of
                None \<Rightarrow> Stop Segfault w'
              | Some a \<Rightarrow> parse_loop a 0 (cmds[0 := cmd']) opts' mem w'))"
    unfolding parse_argv_def Let_def mem_def cmds_def P_def by (rule refl)
  have len: "length gs \<le> length cmds"
    using count_groups [of gs] by (simp add: cmds_def fold_count_sep argv_def)
  have mem': "mem = [Some prog] @ map Some (fst g @ snd g @ rest)"
    by (simp add: mem_def argv_def cl)
  have pne: "[Some prog] \<noteq> []" by simp
  have P: "P = parse_cmd_args \<lparr>signal_everything = False\<rparr> (cmds ! 0) (length [Some prog]) (length mem) mem w"
    by (simp add: P_def)
  have "parse_argv argv w = Stop (Exit 1) w"
  proof (cases "usage_error (getpid_ret w) g")
    case True
    from parse_cmd_args_group(1) [OF wf pne mem' True] P show ?thesis unfolding eq by simp
  next
    case False
    with assms(2) gs have ex: "list_ex (usage_error (getpid_ret w)) gs'" by simp
    then have gs': "gs' \<noteq> []" by auto
    show ?thesis
    proof (cases P)
      case (Stop r w')
      from parse_cmd_args_Stop [OF Stop [unfolded P_def]] Stop show ?thesis unfolding eq by simp
    next
      case (Ok x w')
      obtain opts' cmd' where x: "x = (opts', cmd')" by (cases x) auto
      from parse_cmd_args_group(2) [OF wf pne mem' Ok [unfolded P x]]
      have a: "args cmd' = Some (length [Some prog] + length (fst g))" and w': "w' = w" by simp_all
      have m3: "mem = ([Some prog] @ map Some (fst g)) @ map Some (snd g @ SEP # command_line gs')"
        using gs' by (simp add: mem' rest_def)
      have s: "SEP \<notin> set (snd g)" using wf by (simp add: wf_group_def)
      have c: "0 + length gs' < length (cmds[0 := cmd'])"
        using len gs by simp
      from parse_loop_groups [OF wfs ex s c, of "[Some prog] @ map Some (fst g)" opts']
      have "parse_loop (length [Some prog] + length (fst g)) 0 (cmds[0 := cmd']) opts' mem w =
          Stop (Exit 1) w"
        unfolding m3 by simp
      with a w' show ?thesis unfolding eq Ok x by simp
    qed
  qed
  then show ?thesis by (simp add: argv_def)
qed

text \<open>
  Where every group has a command after its options, the usage errors are found
  before any call is made: with no argument \<^verbatim>\<open>main\<close> returns 1 (line 260); a command
  line that ends with the separator exits with 1 (line 247); a command line of groups,
  one of which has \<^verbatim>\<open>-c\<close> with \<^verbatim>\<open>-f\<close>, or \<^verbatim>\<open>-a\<close> when the process is not
  process 1, exits with 1 (lines 201 and 218).  In each case the world at the end is
  the world at the start.
\<close>

lemma usage_errors_detected:
  "(length argv = 1 \<longrightarrow> rejected (main argv evs w) w) \<and>
   (2 \<le> length argv \<and> last argv = SEP \<longrightarrow> rejected (main argv evs w) w) \<and>
   (list_all wf_group gs \<and> list_ex (usage_error (getpid_ret w)) gs \<longrightarrow>
      rejected (main (prog # command_line gs) evs w) w)"
proof (intro conjI impI)
  assume "length argv = 1"
  then show "rejected (main argv evs w) w" by (simp add: main_def rejected_def exit_status_def)
next
  assume a: "2 \<le> length argv \<and> last argv = SEP"
  then have "parse_argv argv w = Stop (Exit 1) w" by (intro parse_argv_trailing_sep) simp_all
  with a show "rejected (main argv evs w) w" by (simp add: main_def rejected_def exit_status_def)
next
  assume a: "list_all wf_group gs \<and> list_ex (usage_error (getpid_ret w)) gs"
  then have p: "parse_argv (prog # command_line gs) w = Stop (Exit 1) w"
    by (intro parse_argv_groups) simp_all
  from a have "gs \<noteq> []" by auto
  with a have "command_line gs \<noteq> []" by (intro command_line_Nil) simp_all
  with p show "rejected (main (prog # command_line gs) evs w) w"
    by (simp add: main_def rejected_def exit_status_def)
qed

lemma usage_errors_detected_example:
  "rejected (main [''sb''] evs1 sys) sys
   \<and> rejected (main [''sb'', ''x'', ''---''] evs1 sys) sys
   \<and> rejected (main (''sb'' # command_line groups1) evs1 sys) sys
   \<and> rejected (main (''sb'' # command_line groups2) evs1 (sys\<lparr>getpid_ret := 7\<rparr>)) (sys\<lparr>getpid_ret := 7\<rparr>)
   \<and> command_line groups1 = [''y'', ''-v'', ''---'', ''-c'', ''-f'', ''x'']
   \<and> command_line groups2 = [''-fa'', ''y'', ''---'', ''x'']"
proof -
  have h1: "length [''sb''] = 1" by simp
  have h2: "2 \<le> length [''sb'', ''x'', ''---''] \<and> last [''sb'', ''x'', ''---''] = SEP"
    by (simp add: SEP_def)
  have h3: "list_all wf_group groups1 \<and> list_ex (usage_error (getpid_ret sys)) groups1"
    by code_simp
  have h4: "list_all wf_group groups2 \<and>
      list_ex (usage_error (getpid_ret (sys\<lparr>getpid_ret := 7\<rparr>))) groups2"
    by code_simp
  have c: "command_line groups1 = [''y'', ''-v'', ''---'', ''-c'', ''-f'', ''x'']"
    "command_line groups2 = [''-fa'', ''y'', ''---'', ''x'']"
    by (simp_all add: groups1_def groups2_def SEP_def)
  from usage_errors_detected [of "[''sb'']" evs1 sys groups1 "''sb''"] h1 h3
  have "rejected (main [''sb''] evs1 sys) sys"
    "rejected (main (''sb'' # command_line groups1) evs1 sys) sys" by blast+
  moreover from usage_errors_detected [of "[''sb'', ''x'', ''---'']" evs1 "sys\<lparr>getpid_ret := 7\<rparr>" groups2 "''sb''"] h4
  have "rejected (main (''sb'' # command_line groups2) evs1 (sys\<lparr>getpid_ret := 7\<rparr>)) (sys\<lparr>getpid_ret := 7\<rparr>)"
    by blast
  moreover from usage_errors_detected [of "[''sb'', ''x'', ''---'']" evs1 sys groups1 "''sb''"] h2
  have "rejected (main [''sb'', ''x'', ''---''] evs1 sys) sys" by blast
  ultimately show ?thesis using c by blast
qed

text \<open>
  Claim C10 does not hold for every command line.  Line 196 gives \<^verbatim>\<open>getopt\<close> the
  number of words from \<^verbatim>\<open>arg_it\<close> to the end as \<^verbatim>\<open>argc\<close>, one less than the vector
  that starts at \<^verbatim>\<open>arg_it - 1\<close> holds, so the last word of the command line is never
  read as an option.  \<^verbatim>\<open>smell-baron -a\<close>, run by a process that is not process 1,
  launches \<^verbatim>\<open>-a\<close> as a command; \<^verbatim>\<open>smell-baron -c -f\<close> launches \<^verbatim>\<open>-f\<close> as a
  configuring command and then waits without end.  A separator followed by another
  separator is not found either: \<^verbatim>\<open>smell-baron x --- --- y\<close> launches three children,
  the third with a null argument vector, and returns 0.  With a command after it,
  \<^verbatim>\<open>-a\<close> is found and the process exits with status 1 before any call.
\<close>

theorem option_in_last_word:
  "log (snd (main [''sb'', ''-a''] [exit_ev 10 1, no_child] (sys\<lparr>getpid_ret := 7\<rparr>))) =
     installs @ [Fork (Some 1) 10, Waitpid 10 256 EOTHER, Sigaction SIGINT SIG_IGN 0,
       Sigaction SIGTERM SIG_IGN 0, Alarm 10, Kill 0 SIGTERM, Waitpid (- 1) 0 ECHILD]
   \<and> fst (main [''sb'', ''-c'', ''-f''] [exit_ev 10 1, no_child, no_child] sys) = Blocked
   \<and> log (snd (main [''sb'', ''-c'', ''-f''] [exit_ev 10 1, no_child, no_child] sys)) =
       installs @ [Fork (Some 2) 10, Waitpid 10 256 EOTHER, Waitpid (- 1) 0 ECHILD,
         Waitpid (- 1) 0 ECHILD]
   \<and> fst (main [''sb'', ''x'', ''---'', ''---'', ''y'']
        [exit_ev 10 0, exit_ev 11 0, exit_ev 12 0, no_child] sys) = Return (Some 0)
   \<and> take 6 (log (snd (main [''sb'', ''x'', ''---'', ''---'', ''y'']
        [exit_ev 10 0, exit_ev 11 0, exit_ev 12 0, no_child] sys))) =
       installs @ [Fork (Some 1) 10, Fork (Some 4) 11, Fork None 12]
   \<and> fst (main [''sb'', ''-a'', ''x''] [exit_ev 10 1, no_child] (sys\<lparr>getpid_ret := 7\<rparr>)) = Exit 1
   \<and> log (snd (main [''sb'', ''-a'', ''x''] [exit_ev 10 1, no_child] (sys\<lparr>getpid_ret := 7\<rparr>))) = []"
  by code_simp

end
